theory Spec2Isabelle
  imports Complex_Main "HOL-Library.Word" "HOL-Library.Log_Nat"
begin

section \<open>Shoku: the metrics refresh loop of the terminal dashboard\<close>

text \<open>
  The development embeds the Bubble Tea program of the repository: the state
  \<open>model\<close>, its constructor \<open>initialModel\<close>, the CPU sampler and the
  reconciler \<open>Update\<close>. The operating system queries (gopsutil) are inputs of
  the embedding; the progress bar widget (bubbles) is a parameter.
\<close>

subsection \<open>float64\<close>

text \<open>
  A Go \<open>float64\<close> is the real number it denotes, or one of the three special
  values. The sign of zero is not recorded: every divisor of the program is a
  non-negative quantity or the constant 100.
\<close>

datatype float64 = Finite real | PosInf | NegInf | NaN

text \<open>The integer part of the binary logarithm of a positive real.\<close>

definition floor_log2 :: "real \<Rightarrow> int" where
  "floor_log2 x =
     (if 1 \<le> x then bitlen \<lfloor>x\<rfloor> - 1
      else (let y = 1 / x; k = bitlen \<lfloor>y\<rfloor> - 1
            in if y = 2 powi k then - k else - (k + 1)))"

definition round_half_even :: "real \<Rightarrow> int" where
  "round_half_even y =
     (let f = \<lfloor>y\<rfloor>; d = y - of_int f
      in if d < 1 / 2 then f
         else if 1 / 2 < d then f + 1
         else if even f then f else f + 1)"

text \<open>
  Rounding to the nearest binary64 value, ties to even: 53 significant bits,
  least exponent of a unit in the last place -1074, and infinity when the
  rounded value reaches \<open>f64_huge\<close>.
\<close>

definition f64_huge :: real where
  "f64_huge = 2 ^ 1024"

definition f64_round :: "real \<Rightarrow> float64" where
  "f64_round x =
     (if x = 0 then Finite 0
      else (let a = \<bar>x\<bar>;
                e = max (floor_log2 a - 52) (- 1074);
                r = of_int (round_half_even (a / 2 powi e)) * 2 powi e
            in if f64_huge \<le> r then (if 0 < x then PosInf else NegInf)
               else Finite (sgn x * r)))"

text \<open>The conversion \<open>float64(n)\<close> of a \<open>uint64\<close>.\<close>

definition f64_of_uint64 :: "64 word \<Rightarrow> float64" where
  "f64_of_uint64 w = f64_round (real (unat w))"

text \<open>The quotient \<open>x / y\<close> of two \<open>float64\<close>: it never panics.\<close>

fun f64_div :: "float64 \<Rightarrow> float64 \<Rightarrow> float64" where
  "f64_div NaN y = NaN"
| "f64_div x NaN = NaN"
| "f64_div (Finite x) (Finite y) =
     (if y = 0 then (if x = 0 then NaN else if 0 < x then PosInf else NegInf)
      else f64_round (x / y))"
| "f64_div (Finite x) PosInf = Finite 0"
| "f64_div (Finite x) NegInf = Finite 0"
| "f64_div PosInf (Finite y) = (if 0 \<le> y then PosInf else NegInf)"
| "f64_div NegInf (Finite y) = (if 0 \<le> y then NegInf else PosInf)"
| "f64_div PosInf PosInf = NaN"
| "f64_div PosInf NegInf = NaN"
| "f64_div NegInf PosInf = NaN"
| "f64_div NegInf NegInf = NaN"

text \<open>
  The expression \<open>float64(b) / (1024 * 1024 * 1024)\<close>, which the program
  writes out at each place where a byte count enters the state.
\<close>

definition bytesToGB :: "64 word \<Rightarrow> float64" where
  "bytesToGB b = f64_div (f64_of_uint64 b) (Finite (1024 * 1024 * 1024))"

subsection \<open>Data model\<close>

datatype error = Err string

record 'p Disk =
  Mountpoint :: string
  Used :: float64
  Total :: float64
  Progress :: 'p

record 'p model =
  cpuUsage :: float64
  memUsed :: float64
  memTotal :: float64
  disks :: "'p Disk list"
  sysInfo :: string
  width :: int
  height :: int
  err :: "error option"
  cpuProgress :: 'p
  memProgress :: 'p

text \<open>
  The messages of the event loop. \<open>KeyMsg\<close> carries the text that
  \<open>msg.String()\<close> returns; \<open>OtherMsg\<close> stands for every message type the
  switch of \<open>Update\<close> has no case for.
\<close>

datatype msg =
    CpuUsageMsg float64
  | TickMsg
  | KeyMsg string
  | WindowSizeMsg int int
  | OtherMsg nat

subsection \<open>Collaborators\<close>

text \<open>
  The results of the gopsutil queries that one call of \<open>Update\<close> or
  \<open>initialModel\<close> makes. \<open>disk.Usage\<close> is called once for each partition
  of the list, so its result is kept beside the mount point it was called for.
  \<open>hostInfo\<close> is the result of \<open>getSysInfo\<close>, whose text is not the subject
  of any property here.
\<close>

datatype UsageStat = UsageStat (usage_Used: "64 word") (usage_Total: "64 word")

datatype VirtualMemoryStat = VirtualMemoryStat (mem_Used: "64 word") (mem_Total: "64 word")

type_synonym partition = "string \<times> (error + UsageStat)"

record sys =
  virtualMemory :: "error + VirtualMemoryStat"
  hostInfo :: "error + string"
  partitions :: "error + partition list"

text \<open>
  The progress bar. \<open>Update\<close> of the widget returns a \<open>tea.Model\<close>, which
  the program casts back with a checked type assertion: \<open>OtherModel\<close> is a
  result on which the assertion fails. \<open>SetPercent\<close> has a pointer receiver;
  \<open>pl_SetPercent\<close> is what it does to the widget.
\<close>

datatype 'p tea_Model = ProgressModel 'p | OtherModel

record 'p progress_lib =
  pl_New :: 'p
  pl_SetPercent :: "'p \<Rightarrow> float64 \<Rightarrow> 'p"
  pl_Update :: "'p \<Rightarrow> msg \<Rightarrow> 'p tea_Model"

text \<open>
  A command is named by the call that made it: the program only collects
  commands and hands them to the runtime.
\<close>

datatype 'p Cmd =
    Quit
  | TickCmd
  | EnterAltScreen
  | StartCPUUsageMonitor
  | ProgressInit 'p
  | ProgressSetPercent 'p float64
  | ProgressUpdate 'p msg
  | Batch "'p Cmd list"

subsection \<open>initialModel\<close>

fun initialDisks :: "'p progress_lib \<Rightarrow> partition list \<Rightarrow> 'p Disk list" where
  "initialDisks lib [] = []"
| "initialDisks lib ((mp, Inl e) # ps) = initialDisks lib ps"
| "initialDisks lib ((mp, Inr usage) # ps) =
     \<lparr>Mountpoint = mp, Used = bytesToGB (usage_Used usage),
      Total = bytesToGB (usage_Total usage), Progress = pl_New lib\<rparr>
     # initialDisks lib ps"

definition initialModel :: "'p progress_lib \<Rightarrow> sys \<Rightarrow> 'p model" where
  "initialModel lib s =
     \<lparr>cpuUsage = Finite 0, memUsed = Finite 0, memTotal = Finite 0,
      disks = (case partitions s of Inl e \<Rightarrow> [] | Inr ps \<Rightarrow> initialDisks lib ps),
      sysInfo = [], width = 0, height = 0, err = None,
      cpuProgress = pl_New lib, memProgress = pl_New lib\<rparr>"

subsection \<open>The CPU sampler\<close>

text \<open>
  The message that the command of \<open>startCPUUsageMonitor\<close> yields, from the
  result of \<open>cpu.Percent\<close>.
\<close>

definition startCPUUsageMonitor :: "error + float64 list \<Rightarrow> msg" where
  "startCPUUsageMonitor r =
     (case r of
        Inr (p # ps) \<Rightarrow> CpuUsageMsg p
      | _ \<Rightarrow> CpuUsageMsg (Finite 0))"

subsection \<open>Update\<close>

definition getMemUsage :: "error + VirtualMemoryStat \<Rightarrow> float64 \<times> float64 \<times> error option" where
  "getMemUsage r =
     (case r of
        Inl e \<Rightarrow> (Finite 0, Finite 0, Some e)
      | Inr memStat \<Rightarrow>
          (bytesToGB (mem_Used memStat), bytesToGB (mem_Total memStat), None))"

definition getSysInfo :: "error + string \<Rightarrow> string \<times> error option" where
  "getSysInfo r = (case r of Inl e \<Rightarrow> ([], Some e) | Inr s \<Rightarrow> (s, None))"

text \<open>
  The inner loop over \<open>m.disks\<close>: the first entry with the mount point is
  updated in place and the loop breaks; \<open>None\<close> is \<open>found = false\<close>.
\<close>

fun updateDisk ::
  "'p progress_lib \<Rightarrow> string \<Rightarrow> float64 \<Rightarrow> float64 \<Rightarrow> 'p Disk list
    \<Rightarrow> ('p Disk list \<times> 'p Cmd) option" where
  "updateDisk lib mp usedGB totalGB [] = None"
| "updateDisk lib mp usedGB totalGB (d # ds) =
     (if Mountpoint d = mp then
        (let percent = f64_div usedGB totalGB
         in Some (d\<lparr>Used := usedGB, Total := totalGB,
                     Progress := pl_SetPercent lib (Progress d) percent\<rparr> # ds,
                  ProgressSetPercent (Progress d) percent))
      else (case updateDisk lib mp usedGB totalGB ds of
              None \<Rightarrow> None
            | Some (ds', c) \<Rightarrow> Some (d # ds', c)))"

text \<open>
  The body of the loop over the partitions, for one partition. A failed usage
  query is \<open>continue\<close>. For a new mount point the disk is appended before
  \<open>SetPercent\<close> is called on the local \<open>newDisk\<close>, so the entry in the
  list keeps the fresh widget.
\<close>

fun reconcilePartition ::
  "'p progress_lib \<Rightarrow> 'p Disk list \<times> 'p Cmd list \<Rightarrow> partition
    \<Rightarrow> 'p Disk list \<times> 'p Cmd list" where
  "reconcilePartition lib (ds, cmds) (mp, Inl e) = (ds, cmds)"
| "reconcilePartition lib (ds, cmds) (mp, Inr usage) =
     (let usedGB = bytesToGB (usage_Used usage);
          totalGB = bytesToGB (usage_Total usage)
      in case updateDisk lib mp usedGB totalGB ds of
           Some (ds', c) \<Rightarrow> (ds', cmds @ [c])
         | None \<Rightarrow>
             (let diskProgress = pl_New lib;
                  newDisk = \<lparr>Mountpoint = mp, Used = usedGB, Total = totalGB,
                             Progress = diskProgress\<rparr>
              in (ds @ [newDisk],
                  cmds @ [ProgressInit diskProgress,
                          ProgressSetPercent diskProgress (f64_div usedGB totalGB)])))"

definition reconcilePartitions ::
  "'p progress_lib \<Rightarrow> partition list \<Rightarrow> 'p Disk list \<times> 'p Cmd list
    \<Rightarrow> 'p Disk list \<times> 'p Cmd list" where
  "reconcilePartitions lib ps st = foldl (reconcilePartition lib) st ps"

text \<open>
  The switch on the message type. \<open>Inl\<close> is an early \<open>return\<close>; \<open>Inr\<close>
  carries the state and the commands on to the widget updates. In the case of
  a tick, the memory values and the host text are assigned before the error of
  their query is tested, and only a failed partition query assigns \<open>m.err\<close>.
\<close>

definition tick ::
  "'p progress_lib \<Rightarrow> sys \<Rightarrow> 'p model
    \<Rightarrow> ('p model \<times> 'p Cmd) + ('p model \<times> 'p Cmd list)" where
  "tick lib s m =
     (case getMemUsage (virtualMemory s) of (mu, mt, merr) \<Rightarrow>
        let m1 = m\<lparr>memUsed := mu, memTotal := mt\<rparr> in
        if merr \<noteq> None then Inl (m1, Quit)
        else (case getSysInfo (hostInfo s) of (si, serr) \<Rightarrow>
          let m2 = m1\<lparr>sysInfo := si\<rparr> in
          if serr \<noteq> None then Inl (m2, Quit)
          else (case partitions s of
                  Inl e \<Rightarrow> Inl (m2\<lparr>err := Some e\<rparr>, Quit)
                | Inr ps \<Rightarrow>
                    (case reconcilePartitions lib ps (disks m2, []) of (ds, cmds) \<Rightarrow>
                       let percent = f64_div (memUsed m2) (memTotal m2) in
                       Inr (m2\<lparr>disks := ds,
                                memProgress := pl_SetPercent lib (memProgress m2) percent\<rparr>,
                            cmds @ [ProgressSetPercent (memProgress m2) percent, TickCmd])))))"

fun switch ::
  "'p progress_lib \<Rightarrow> sys \<Rightarrow> 'p model \<Rightarrow> msg
    \<Rightarrow> ('p model \<times> 'p Cmd) + ('p model \<times> 'p Cmd list)" where
  "switch lib s m (CpuUsageMsg v) =
     (let percent = f64_div v (Finite 100)
      in Inr (m\<lparr>cpuUsage := v,
                 cpuProgress := pl_SetPercent lib (cpuProgress m) percent\<rparr>,
              [ProgressSetPercent (cpuProgress m) percent, StartCPUUsageMonitor]))"
| "switch lib s m (KeyMsg k) =
     (if k = ''ctrl+c'' \<or> k = ''q'' then Inl (m, Quit) else Inr (m, []))"
| "switch lib s m TickMsg = tick lib s m"
| "switch lib s m (WindowSizeMsg w h) = Inr (m\<lparr>width := w, height := h\<rparr>, [])"
| "switch lib s m (OtherMsg x) = Inr (m, [])"

text \<open>
  The loop that hands the message to the widget of each disk. It stops at the
  first failed type assertion, with the entries before it already replaced.
\<close>

fun updateDiskProgress ::
  "'p progress_lib \<Rightarrow> msg \<Rightarrow> 'p Disk list
    \<Rightarrow> 'p Disk list \<times> 'p Cmd list \<times> error option" where
  "updateDiskProgress lib e [] = ([], [], None)"
| "updateDiskProgress lib e (d # ds) =
     (case pl_Update lib (Progress d) e of
        ProgressModel dp \<Rightarrow>
          (case updateDiskProgress lib e ds of (ds', cs, r) \<Rightarrow>
             (d\<lparr>Progress := dp\<rparr> # ds', ProgressUpdate (Progress d) e # cs, r))
      | OtherModel \<Rightarrow>
          (d # ds, [],
           Some (Err (''failed to cast diskProgress to progress.Model for mountpoint ''
                      @ Mountpoint d))))"

definition Update ::
  "'p progress_lib \<Rightarrow> sys \<Rightarrow> 'p model \<Rightarrow> msg \<Rightarrow> 'p model \<times> 'p Cmd" where
  "Update lib s m e =
     (case switch lib s m e of
        Inl r \<Rightarrow> r
      | Inr (m1, cmds) \<Rightarrow>
          (case pl_Update lib (cpuProgress m1) e of
             OtherModel \<Rightarrow>
               (m1\<lparr>err := Some (Err ''failed to cast cpuProgress to progress.Model'')\<rparr>, Quit)
           | ProgressModel cpuP \<Rightarrow>
               (let m2 = m1\<lparr>cpuProgress := cpuP\<rparr>;
                    cmds2 = cmds @ [ProgressUpdate (cpuProgress m1) e]
                in case pl_Update lib (memProgress m2) e of
                     OtherModel \<Rightarrow>
                       (m2\<lparr>err := Some (Err ''failed to cast memProgress to progress.Model'')\<rparr>,
                        Quit)
                   | ProgressModel memP \<Rightarrow>
                       (let m3 = m2\<lparr>memProgress := memP\<rparr>;
                            cmds3 = cmds2 @ [ProgressUpdate (memProgress m2) e]
                        in case updateDiskProgress lib e (disks m3) of
                             (ds, cs, Some x) \<Rightarrow> (m3\<lparr>disks := ds, err := Some x\<rparr>, Quit)
                           | (ds, cs, None) \<Rightarrow> (m3\<lparr>disks := ds\<rparr>, Batch (cmds3 @ cs))))))"

subsection \<open>The parts of a rounded value\<close>

text \<open>
  The exponent of the unit in the last place that \<open>f64_round\<close> chooses for
  a positive real, and the integer significand it rounds to.
\<close>

definition f64_exp :: "real \<Rightarrow> int" where
  "f64_exp x = max (floor_log2 x - 52) (- 1074)"

definition f64_mant :: "real \<Rightarrow> int" where
  "f64_mant x = round_half_even (x / 2 powi f64_exp x)"

subsection \<open>The disk list as data\<close>

text \<open>
  What the specification calls a disk entry: mount point, used and total
  gigabytes. \<open>diskData\<close> forgets the widget of a \<open>Disk\<close>, and
  \<open>stepData\<close> is the effect of one partition of a tick on the entries:
  the first entry with the mount point is overwritten, or a new entry is put
  at the end.
\<close>

type_synonym entry = "string \<times> float64 \<times> float64"

definition diskData :: "'p Disk \<Rightarrow> entry" where
  "diskData d = (Mountpoint d, Used d, Total d)"

fun setFirst :: "string \<Rightarrow> float64 \<times> float64 \<Rightarrow> entry list \<Rightarrow> entry list" where
  "setFirst mp v [] = []"
| "setFirst mp v ((k, w) # xs) = (if k = mp then (k, v) # xs else (k, w) # setFirst mp v xs)"

definition upsert :: "string \<Rightarrow> float64 \<times> float64 \<Rightarrow> entry list \<Rightarrow> entry list" where
  "upsert mp v xs = (if mp \<in> fst ` set xs then setFirst mp v xs else xs @ [(mp, v)])"

fun stepData :: "entry list \<Rightarrow> partition \<Rightarrow> entry list" where
  "stepData xs (mp, Inl e) = xs"
| "stepData xs (mp, Inr usage) =
     upsert mp (bytesToGB (usage_Used usage), bytesToGB (usage_Total usage)) xs"

text \<open>The mount points for which some usage query of the list succeeds.\<close>

definition okKeys :: "partition list \<Rightarrow> string set" where
  "okKeys ps = fst ` set (filter (\<lambda>p. \<not> isl (snd p)) ps)"

text \<open>
  The type assertions of \<open>Update\<close> succeed: the widget returns a
  \<open>progress.Model\<close> from its \<open>Update\<close>.
\<close>

definition castsOk :: "'p progress_lib \<Rightarrow> bool" where
  "castsOk lib = (\<forall>p e. pl_Update lib p e \<noteq> OtherModel)"

text \<open>The effect of a whole tick on the entries.\<close>

definition tickData :: "sys \<Rightarrow> entry list \<Rightarrow> entry list" where
  "tickData s xs =
     (case (virtualMemory s, hostInfo s, partitions s) of
        (Inr ms, Inr h, Inr ps) \<Rightarrow> foldl stepData xs ps
      | _ \<Rightarrow> xs)"

subsection \<open>Example inputs\<close>

text \<open>A widget that ignores every call, and a state with two disks.\<close>

definition idleProgress :: "nat progress_lib" where
  "idleProgress = \<lparr>pl_New = 0, pl_SetPercent = (\<lambda>p x. p), pl_Update = (\<lambda>p e. ProgressModel p)\<rparr>"

definition rootDisk :: "nat Disk" where
  "rootDisk = \<lparr>Mountpoint = ''/'', Used = Finite 1, Total = Finite 2, Progress = 1\<rparr>"

definition homeDisk :: "nat Disk" where
  "homeDisk = \<lparr>Mountpoint = ''/home'', Used = Finite 3, Total = Finite 4, Progress = 2\<rparr>"

definition exModel :: "nat model" where
  "exModel = \<lparr>cpuUsage = Finite 25, memUsed = Finite 1, memTotal = Finite 8,
     disks = [rootDisk, homeDisk], sysInfo = ''Hostname: h'', width = 80, height = 24,
     err = None, cpuProgress = 3, memProgress = 4\<rparr>"

definition exMem :: VirtualMemoryStat where
  "exMem = VirtualMemoryStat 2147483648 4294967296"

definition usageA :: UsageStat where "usageA = UsageStat 10 20"

definition usageB :: UsageStat where "usageB = UsageStat 30 40"

definition usageC :: UsageStat where "usageC = UsageStat 50 60"

definition growSys :: sys where
  "growSys = \<lparr>virtualMemory = Inr exMem, hostInfo = Inr ''Hostname: h'',
     partitions = Inr [(''/'', Inr usageA), (''/home'', Inr usageB), (''/mnt'', Inr usageC)]\<rparr>"

definition shrinkSys :: sys where
  "shrinkSys = \<lparr>virtualMemory = Inr exMem, hostInfo = Inr ''Hostname: h'',
     partitions = Inr [(''/'', Inr usageA)]\<rparr>"

definition memFailSys :: sys where
  "memFailSys = \<lparr>virtualMemory = Inl (Err ''no meminfo''), hostInfo = Inr ''Hostname: h'',
     partitions = Inr [(''/'', Inr usageA)]\<rparr>"

definition partialSys :: sys where
  "partialSys = \<lparr>virtualMemory = Inr exMem, hostInfo = Inr ''Hostname: h'',
     partitions = Inr [(''/'', Inr usageA), (''/home'', Inl (Err ''permission denied''))]\<rparr>"

definition noDiskSys :: sys where
  "noDiskSys = \<lparr>virtualMemory = Inr exMem, hostInfo = Inr ''Hostname: h'',
     partitions = Inr [(''/'', Inl (Err ''permission denied''))]\<rparr>"

text \<open>The messages that are neither a tick nor a CPU sample.\<close>

definition isUIMsg :: "msg \<Rightarrow> bool" where
  "isUIMsg e = (case e of CpuUsageMsg v \<Rightarrow> False | TickMsg \<Rightarrow> False | _ \<Rightarrow> True)"

subsection \<open>The percentages handed to the widgets\<close>

text \<open>
  The arguments of the \<open>SetPercent\<close> calls among a list of commands, and the
  quotient that a tick computes for one partition.
\<close>

fun percents :: "'p Cmd list \<Rightarrow> float64 list" where
  "percents [] = []"
| "percents (ProgressSetPercent p v # cs) = v # percents cs"
| "percents (c # cs) = percents cs"

fun isFinite :: "float64 \<Rightarrow> bool" where
  "isFinite (Finite r) = True"
| "isFinite v = False"

fun partPercents :: "partition \<Rightarrow> float64 list" where
  "partPercents (mp, Inl e) = []"
| "partPercents (mp, Inr u) = [f64_div (bytesToGB (usage_Used u)) (bytesToGB (usage_Total u))]"

fun totalNonzero :: "partition \<Rightarrow> bool" where
  "totalNonzero (mp, Inl e) = True"
| "totalNonzero (mp, Inr u) = (usage_Total u \<noteq> 0)"

definition p4Sys :: sys where
  "p4Sys = \<lparr>virtualMemory = Inr (VirtualMemoryStat 2147483648 4294967296),
     hostInfo = Inr ''Hostname: h'',
     partitions = Inr [(''/data'', Inr (UsageStat 2147483648 4294967296))]\<rparr>"

definition zeroSys :: sys where
  "zeroSys = \<lparr>virtualMemory = Inr (VirtualMemoryStat 0 0),
     hostInfo = Inr ''Hostname: h'',
     partitions = Inr [(''/'', Inr (UsageStat 0 0)), (''/home'', Inr (UsageStat 5 0))]\<rparr>"

section \<open>Rounding to float64\<close>

lemma two_powi_less_iff: "(2::real) powi m < 2 powi n \<longleftrightarrow> m < n"
proof
  assume a: "(2::real) powi m < 2 powi n"
  show "m < n"
  proof (rule ccontr)
    assume "\<not> m < n"
    then have "n \<le> m" by simp
    then have "(2::real) powi n \<le> 2 powi m" by (intro power_int_increasing) auto
    with a show False by simp
  qed
next
  assume "m < n"
  then show "(2::real) powi m < 2 powi n" by (intro power_int_strict_increasing) auto
qed

lemma two_powi_le_iff: "(2::real) powi m \<le> 2 powi n \<longleftrightarrow> m \<le> n"
  using two_powi_less_iff [of n m] by (auto simp: not_less [symmetric])

lemma bitlen_real_bounds:
  assumes "0 < n"
  shows "(2::real) ^ nat (bitlen n - 1) \<le> real_of_int n" and "real_of_int n + 1 \<le> 2 ^ nat (bitlen n)"
proof -
  from bitlen_bounds [OF assms] have a: "2 ^ nat (bitlen n - 1) \<le> n" and b: "n < 2 ^ nat (bitlen n)"
    by auto
  from a have "real_of_int (2 ^ nat (bitlen n - 1)) \<le> real_of_int n" by (rule of_int_le_iff [THEN iffD2])
  then show "(2::real) ^ nat (bitlen n - 1) \<le> real_of_int n" by simp
  from b have "n + 1 \<le> 2 ^ nat (bitlen n)" by simp
  then have "real_of_int (n + 1) \<le> real_of_int (2 ^ nat (bitlen n))" by (rule of_int_le_iff [THEN iffD2])
  then show "real_of_int n + 1 \<le> 2 ^ nat (bitlen n)" by simp
qed

lemma bitlen_pos: "0 < n \<Longrightarrow> 1 \<le> bitlen n"
  using bitlen_eq_zero_iff [of n] bitlen_nonneg [of n] by linarith

lemma floor_log2_ge1:
  assumes "1 \<le> x"
  shows "2 powi (floor_log2 x) \<le> x" and "x < 2 powi (floor_log2 x + 1)"
proof -
  let ?n = "\<lfloor>x\<rfloor>"
  have n: "0 < ?n" using assms by simp
  have k: "0 \<le> bitlen ?n - 1" using bitlen_pos [OF n] by simp
  have fl: "floor_log2 x = bitlen ?n - 1" using assms by (simp add: floor_log2_def)
  have "2 powi (bitlen ?n - 1) = (2::real) ^ nat (bitlen ?n - 1)"
    using k by (simp add: power_int_def)
  also have "\<dots> \<le> real_of_int ?n" by (rule bitlen_real_bounds(1) [OF n])
  also have "\<dots> \<le> x" by simp
  finally show "2 powi (floor_log2 x) \<le> x" by (simp add: fl)
  have "x < real_of_int ?n + 1" by linarith
  also have "\<dots> \<le> 2 ^ nat (bitlen ?n)" by (rule bitlen_real_bounds(2) [OF n])
  also have "\<dots> = 2 powi (bitlen ?n)" using bitlen_nonneg [of ?n] by (simp add: power_int_def)
  finally show "x < 2 powi (floor_log2 x + 1)" by (simp add: fl)
qed

lemma floor_log2_bounds:
  assumes "0 < x"
  shows "2 powi (floor_log2 x) \<le> x \<and> x < 2 powi (floor_log2 x + 1)"
proof (cases "1 \<le> x")
  case True
  then show ?thesis using floor_log2_ge1 by blast
next
  case False
  define y where "y = 1 / x"
  define k where "k = bitlen \<lfloor>y\<rfloor> - 1"
  have y1: "1 \<le> y" using assms False by (simp add: y_def)
  have x: "x = 1 / y" using assms by (simp add: y_def)
  have yk: "floor_log2 y = k" using y1 by (simp add: floor_log2_def k_def)
  have lo: "2 powi k \<le> y" and hi: "y < 2 powi (k + 1)"
    using floor_log2_ge1 [OF y1] yk by simp_all
  have pk: "(0::real) < 2 powi k" by simp
  have fl_eq: "floor_log2 x = (if y = 2 powi k then - k else - (k + 1))"
    using False unfolding floor_log2_def y_def k_def Let_def by simp
  show ?thesis
  proof (cases "y = 2 powi k")
    case True
    then have fl: "floor_log2 x = - k"
      using fl_eq by simp
    have "x = 2 powi (- k)" using True x by (simp add: power_int_minus field_simps)
    then show ?thesis using fl by (simp add: two_powi_less_iff)
  next
    case ne: False
    then have fl: "floor_log2 x = - (k + 1)"
      using fl_eq by simp
    from lo ne have lo': "2 powi k < y" by simp
    have "2 powi (- (k + 1)) = 1 / (2 powi (k + 1) :: real)" by (rule power_int_minus_divide)
    also have "\<dots> < 1 / y" using hi y1 by (intro divide_strict_left_mono) auto
    finally have a: "2 powi (- (k + 1)) \<le> x" using x by simp
    have "x = 1 / y" by (rule x)
    also have "\<dots> < 1 / 2 powi k" using lo' pk y1 by (intro divide_strict_left_mono) auto
    also have "\<dots> = 2 powi (- k)" by (simp add: power_int_minus_divide)
    finally have b: "x < 2 powi (- (k + 1) + 1)" by simp
    show ?thesis using a b fl by simp
  qed
qed

lemma round_half_even_of_int: "round_half_even (of_int n) = n"
  by (simp add: round_half_even_def)

lemma round_half_even_error: "\<bar>of_int (round_half_even y) - y\<bar> \<le> 1 / 2"
proof -
  have "of_int \<lfloor>y\<rfloor> \<le> y" "y < of_int \<lfloor>y\<rfloor> + 1" by linarith+
  then show ?thesis by (auto simp: round_half_even_def Let_def)
qed

lemma round_half_even_le: 
  assumes "y \<le> of_int n" shows "round_half_even y \<le> n"
proof -
  have "of_int (round_half_even y) \<le> y + 1 / 2" using round_half_even_error [of y] by linarith
  then have "real_of_int (round_half_even y) < of_int n + 1" using assms by linarith
  then have "real_of_int (round_half_even y) < of_int (n + 1)" by simp
  then have "round_half_even y < n + 1" by (simp only: of_int_less_iff)
  then show ?thesis by simp
qed

lemma round_half_even_ge: 
  assumes "of_int n \<le> y" shows "n \<le> round_half_even y"
proof -
  have "y - 1 / 2 \<le> of_int (round_half_even y)" using round_half_even_error [of y] by linarith
  then have "of_int n - 1 < real_of_int (round_half_even y)" using assms by linarith
  then have "real_of_int (n - 1) < of_int (round_half_even y)" by simp
  then have "n - 1 < round_half_even y" by (simp only: of_int_less_iff)
  then show ?thesis by simp
qed

lemma f64_round_pos:
  assumes "0 < x"
  shows "f64_round x =
     (if f64_huge \<le> of_int (f64_mant x) * 2 powi f64_exp x then PosInf
      else Finite (of_int (f64_mant x) * 2 powi f64_exp x))"
  using assms by (simp add: f64_round_def Let_def f64_mant_def f64_exp_def)

lemma f64_exp_le:
  assumes "0 < x"
  shows "2 powi f64_exp x \<le> max (x / 2 ^ 52) (2 powi (- 1074))"
proof (cases "floor_log2 x - 52 \<le> - 1074")
  case True
  then have "f64_exp x = - 1074" by (simp add: f64_exp_def)
  then show ?thesis by simp
next
  case False
  then have e: "f64_exp x = floor_log2 x - 52" by (simp add: f64_exp_def)
  have "2 powi (floor_log2 x - 52) = 2 powi floor_log2 x / (2 ^ 52 :: real)"
    by (simp add: power_int_diff)
  also have "\<dots> \<le> x / 2 ^ 52"
    using floor_log2_bounds [OF assms] by (simp add: divide_right_mono)
  finally show ?thesis using e by simp
qed

lemma f64_mant_bounds:
  assumes "0 < x"
  shows "0 \<le> f64_mant x" and "f64_mant x \<le> 2 ^ 53"
    and "\<bar>of_int (f64_mant x) * 2 powi f64_exp x - x\<bar> \<le> 2 powi f64_exp x / 2"
proof -
  let ?e = "f64_exp x"
  let ?q = "x / 2 powi ?e"
  have p: "(0::real) < 2 powi ?e" by simp
  have "of_int 0 \<le> ?q" using assms by simp
  then show "0 \<le> f64_mant x" unfolding f64_mant_def by (rule round_half_even_ge)
  have "floor_log2 x + 1 \<le> ?e + 53" by (simp add: f64_exp_def)
  then have "(2::real) powi (floor_log2 x + 1) \<le> 2 powi (?e + 53)" by (simp only: two_powi_le_iff)
  then have "x < 2 powi (?e + 53)" using floor_log2_bounds [OF assms] by linarith
  also have "\<dots> = 2 powi ?e * 2 ^ 53" by (simp add: power_int_add)
  finally have "?q < 2 ^ 53" using p by (simp add: field_simps)
  then have "?q \<le> of_int (2 ^ 53)" by simp
  then show "f64_mant x \<le> 2 ^ 53" unfolding f64_mant_def by (rule round_half_even_le)
  have "\<bar>of_int (f64_mant x) * 2 powi ?e - x\<bar> = \<bar>of_int (f64_mant x) - ?q\<bar> * 2 powi ?e"
  proof -
    have "of_int (f64_mant x) * 2 powi ?e - x = (of_int (f64_mant x) - ?q) * 2 powi ?e"
      using p by (simp add: field_simps)
    then show ?thesis using p by (simp add: abs_mult)
  qed
  also have "\<dots> \<le> (1 / 2) * 2 powi ?e"
    using round_half_even_error [of ?q] p unfolding f64_mant_def
    by (intro mult_right_mono) auto
  finally show "\<bar>of_int (f64_mant x) * 2 powi ?e - x\<bar> \<le> 2 powi ?e / 2" by simp
qed

lemma f64_huge_ge: "4 \<le> f64_huge"
  by (simp add: f64_huge_def)

lemma f64_round_finite:
  assumes "0 < x" and "x < f64_huge / 2"
  shows "\<exists>y. f64_round x = Finite y \<and> 0 \<le> y \<and> \<bar>y - x\<bar> \<le> 2 powi f64_exp x / 2"
proof -
  let ?r = "of_int (f64_mant x) * 2 powi f64_exp x :: real"
  note b = f64_mant_bounds [OF assms(1)]
  have "2 powi f64_exp x \<le> max (x / 2 ^ 52) (2 powi (- 1074))" by (rule f64_exp_le [OF assms(1)])
  also have "\<dots> \<le> max x 1"
  proof -
    have "x / 2 ^ 52 \<le> x" using assms(1) by (simp add: field_simps)
    moreover have "(2::real) powi (- 1074) \<le> 1" by (simp add: power_int_minus field_simps)
    ultimately show ?thesis by (simp add: max_def)
  qed
  finally have e: "2 powi f64_exp x \<le> max x 1" .
  have "?r \<le> x + 2 powi f64_exp x / 2" using b(3) by linarith
  also have "\<dots> \<le> x + max x 1 / 2" using e by simp
  also have "\<dots> < f64_huge" using assms f64_huge_ge by (simp add: max_def)
  finally have lt: "?r < f64_huge" .
  have "0 \<le> ?r" using b(1) by simp
  with lt b(3) show ?thesis by (simp add: f64_round_pos [OF assms(1)])
qed

lemma f64_round_exact_lt:
  assumes "0 < m" and "m < 2 ^ 53" and "- 1074 \<le> k" and "of_int m * 2 powi k < f64_huge"
  shows "f64_round (of_int m * 2 powi k) = Finite (of_int m * 2 powi k)"
proof -
  let ?x = "of_int m * 2 powi k :: real"
  have x: "0 < ?x" using assms(1) by simp
  let ?e = "f64_exp ?x"
  have "2 powi floor_log2 ?x \<le> ?x" using floor_log2_bounds [OF x] by simp
  also have "?x < 2 ^ 53 * 2 powi k"
  proof -
    have "real_of_int m < of_int (2 ^ 53)" using assms(2) by (simp only: of_int_less_iff)
    then show ?thesis by simp
  qed
  also have "\<dots> = 2 powi (k + 53)" by (simp add: power_int_add)
  finally have "floor_log2 ?x < k + 53" by (simp only: two_powi_less_iff)
  then have ek: "?e \<le> k" using assms(3) by (simp add: f64_exp_def)
  have q: "?x / 2 powi ?e = of_int (m * 2 ^ nat (k - ?e))"
  proof -
    have "?x / 2 powi ?e = of_int m * (2 powi k / 2 powi ?e)" by simp
    also have "2 powi k / 2 powi ?e = (2::real) powi (k - ?e)" by (simp add: power_int_diff)
    also have "(2::real) powi (k - ?e) = 2 ^ nat (k - ?e)" using ek by (simp add: power_int_def)
    finally show ?thesis by simp
  qed
  have "f64_mant ?x = m * 2 ^ nat (k - ?e)"
    unfolding f64_mant_def q by (rule round_half_even_of_int)
  then have "of_int (f64_mant ?x) * 2 powi ?e = ?x / 2 powi ?e * 2 powi ?e"
    using q by simp
  also have "\<dots> = ?x" by simp
  finally have r: "of_int (f64_mant ?x) * 2 powi ?e = ?x" .
  show ?thesis using assms(4) by (simp only: f64_round_pos [OF x] r) simp
qed

lemma f64_round_exact:
  assumes "0 < m" and "m \<le> 2 ^ 53" and "- 1074 \<le> k" and "of_int m * 2 powi k < f64_huge"
  shows "f64_round (of_int m * 2 powi k) = Finite (of_int m * 2 powi k)"
proof (cases "m = 2 ^ 53")
  case False
  with assms(2) have "m < 2 ^ 53" by simp
  then show ?thesis using assms(1,3,4) by (intro f64_round_exact_lt)
next
  case True
  have eq: "real_of_int m * 2 powi k = of_int (2 ^ 52) * 2 powi (k + 1)"
    using True by (simp add: power_int_add)
  have "f64_round (of_int (2 ^ 52) * 2 powi (k + 1)) = Finite (of_int (2 ^ 52) * 2 powi (k + 1))"
    using assms(3,4) unfolding eq by (intro f64_round_exact_lt) auto
  then show ?thesis unfolding eq .
qed

lemma f64_huge_gt: "2 ^ 64 < f64_huge / 2" "2 ^ 67 < f64_huge / 2" "2 ^ 53 < f64_huge"
  by (simp_all add: f64_huge_def)

lemma unat64_lt: "unat (b :: 64 word) < 2 ^ 64"
  using unsigned_less [of b] by simp

lemma f64_round_ge1:
  assumes "1 \<le> x" and "x < f64_huge / 2"
  shows "\<exists>m e. f64_round x = Finite (of_int m * 2 powi e) \<and> 0 < m \<and> m \<le> 2 ^ 53 \<and> - 52 \<le> e
           \<and> \<bar>of_int m * 2 powi e - x\<bar> \<le> x / 2 ^ 53 \<and> of_int m * 2 powi e < f64_huge"
proof -
  have x: "0 < x" using assms(1) by simp
  let ?e = "f64_exp x" and ?m = "f64_mant x"
  have "(2::real) powi 0 \<le> x" using assms(1) by simp
  also have "x < 2 powi (floor_log2 x + 1)" using floor_log2_bounds [OF x] by simp
  finally have "0 < floor_log2 x + 1" by (simp only: two_powi_less_iff)
  then have fl: "0 \<le> floor_log2 x" by simp
  then have e: "?e = floor_log2 x - 52" by (simp add: f64_exp_def)
  then have e52: "- 52 \<le> ?e" using fl by simp
  have pe: "2 powi ?e = 2 powi floor_log2 x / (2 ^ 52 :: real)"
    by (simp add: e power_int_diff)
  have pex: "2 powi ?e \<le> x / 2 ^ 52"
    unfolding pe using floor_log2_bounds [OF x] by (simp add: divide_right_mono)
  note b = f64_mant_bounds [OF x]
  have "of_int (2 ^ 52) \<le> x / 2 powi ?e"
    unfolding pe using floor_log2_bounds [OF x] by (simp add: field_simps)
  then have "2 ^ 52 \<le> ?m" unfolding f64_mant_def by (rule round_half_even_ge)
  then have m0: "0 < ?m" by simp
  obtain y where y: "f64_round x = Finite y" using f64_round_finite [OF x assms(2)] by blast
  have r: "f64_round x = Finite (of_int ?m * 2 powi ?e)" and lt: "of_int ?m * 2 powi ?e < f64_huge"
    using y f64_round_pos [OF x] by (auto split: if_splits)
  have "\<bar>of_int ?m * 2 powi ?e - x\<bar> \<le> 2 powi ?e / 2" by (rule b(3))
  also have "\<dots> \<le> x / 2 ^ 53" using pex by simp
  finally have err: "\<bar>of_int ?m * 2 powi ?e - x\<bar> \<le> x / 2 ^ 53" .
  from r m0 b(2) e52 err lt show ?thesis by blast
qed

lemma nat_toGB_round:
  assumes "n < 2 ^ 64"
  shows "\<exists>y. f64_round (real n) = Finite y
       \<and> f64_div (Finite y) (Finite (1024 * 1024 * 1024)) = Finite (y / 2 ^ 30)
       \<and> \<bar>y - real n\<bar> \<le> real n / 2 ^ 53"
proof (cases "n = 0")
  case True
  then show ?thesis by (simp add: f64_round_def)
next
  case False
  let ?x = "real n"
  have x1: "1 \<le> ?x" using False by simp
  have "?x < real (2 ^ 64)" using assms by (simp only: of_nat_less_iff)
  then have xh: "?x < f64_huge / 2" using f64_huge_gt(1) by simp
  obtain m e where me: "f64_round ?x = Finite (of_int m * 2 powi e)" "0 < m" "m \<le> 2 ^ 53"
      "- 52 \<le> e" "\<bar>of_int m * 2 powi e - ?x\<bar> \<le> ?x / 2 ^ 53" "of_int m * 2 powi e < f64_huge"
    using f64_round_ge1 [OF x1 xh] by blast
  let ?y = "of_int m * 2 powi e :: real"
  have d: "?y / 2 ^ 30 = of_int m * 2 powi (e - 30)" by (simp add: power_int_diff)
  have "of_int m * 2 powi (e - 30) \<le> ?y"
  proof -
    have "e - 30 \<le> e" by simp
    then have "(2::real) powi (e - 30) \<le> 2 powi e" by (simp only: two_powi_le_iff)
    then show ?thesis using me(2) by simp
  qed
  then have lt: "of_int m * 2 powi (e - 30) < f64_huge" using me(6) by linarith
  have "f64_round (of_int m * 2 powi (e - 30)) = Finite (of_int m * 2 powi (e - 30))"
    using me(2,3,4) lt by (intro f64_round_exact) auto
  then have "f64_round (?y / 2 ^ 30) = Finite (?y / 2 ^ 30)" by (simp only: d)
  then have "f64_div (Finite ?y) (Finite (1024 * 1024 * 1024)) = Finite (?y / 2 ^ 30)"
    by simp
  with me(1,5) show ?thesis by blast
qed

lemma nat_toGB_exact:
  assumes "n \<le> 2 ^ 53"
  shows "f64_div (f64_round (real n)) (Finite (1024 * 1024 * 1024)) = Finite (real n / 2 ^ 30)"
proof (cases "n = 0")
  case True
  then show ?thesis by (simp add: f64_round_def)
next
  case False
  have le: "int n \<le> 2 ^ 53" using assms by (simp only: of_nat_le_iff [symmetric, where ?'a = int]) simp
  have lt: "real_of_int (int n) * 2 powi 0 < f64_huge"
  proof -
    have "real n \<le> real (2 ^ 53)" using assms by (simp only: of_nat_le_iff)
    then show ?thesis using f64_huge_gt(3) by simp
  qed
  have "f64_round (real_of_int (int n) * 2 powi 0) = Finite (real_of_int (int n) * 2 powi 0)"
    using False le lt by (intro f64_round_exact) auto
  then have c: "f64_round (real n) = Finite (real n)" by simp
  have "n < 2 ^ 64" using assms by (rule le_less_trans) simp
  then obtain y where y: "f64_round (real n) = Finite y"
      "f64_div (Finite y) (Finite (1024 * 1024 * 1024)) = Finite (y / 2 ^ 30)"
    using nat_toGB_round [of n] by blast
  with c show ?thesis by simp
qed

lemma nat_toGB_bounds:
  assumes "n < 2 ^ 64"
  shows "\<exists>g. f64_div (f64_round (real n)) (Finite (1024 * 1024 * 1024)) = Finite g
       \<and> 0 \<le> g \<and> g \<le> 2 ^ 35 \<and> (n \<noteq> 0 \<longrightarrow> 1 / 2 ^ 31 \<le> g)
       \<and> \<bar>g - real n / 2 ^ 30\<bar> \<le> real n / 2 ^ 30 / 2 ^ 53"
proof -
  let ?n = "real n"
  obtain y where y: "f64_div (f64_round ?n) (Finite (1024 * 1024 * 1024)) = Finite (y / 2 ^ 30)"
      "\<bar>y - ?n\<bar> \<le> ?n / 2 ^ 53"
    using nat_toGB_round [OF assms] by auto
  have "?n < real (2 ^ 64)" using assms by (simp only: of_nat_less_iff)
  then have n: "0 \<le> ?n" "?n < 2 ^ 64" by simp_all
  have "?n / 2 ^ 53 \<le> ?n / 2" using n(1) by (simp add: field_simps)
  with y(2) have lo: "?n / 2 \<le> y" and hi: "y \<le> 2 * ?n" using n(1) by linarith+
  have 1: "0 \<le> y / 2 ^ 30" using lo n(1) by simp
  have "y \<le> 2 ^ 65" using hi n(2) by simp
  then have 2: "y / 2 ^ 30 \<le> 2 ^ 35" by (simp add: field_simps)
  have 3: "1 / 2 ^ 31 \<le> y / 2 ^ 30" if "n \<noteq> 0"
  proof -
    from that have "1 \<le> ?n" by simp
    with lo have "1 / 2 \<le> y" by linarith
    then show ?thesis by (simp add: field_simps)
  qed
  have "\<bar>y / 2 ^ 30 - ?n / 2 ^ 30\<bar> = \<bar>y - ?n\<bar> / 2 ^ 30"
    by (simp add: diff_divide_distrib [symmetric])
  also have "\<dots> \<le> ?n / 2 ^ 53 / 2 ^ 30" using y(2) by (simp add: divide_right_mono)
  finally have 4: "\<bar>y / 2 ^ 30 - ?n / 2 ^ 30\<bar> \<le> ?n / 2 ^ 30 / 2 ^ 53" by simp
  from y(1) 1 2 3 4 show ?thesis by blast
qed

lemma bytesToGB_nat: "bytesToGB b = f64_div (f64_round (real (unat b))) (Finite (1024 * 1024 * 1024))"
  by (simp only: bytesToGB_def f64_of_uint64_def)

lemma bytesToGB_exact:
  assumes "unat b \<le> 2 ^ 53"
  shows "bytesToGB b = Finite (real (unat b) / 2 ^ 30)"
  unfolding bytesToGB_nat using assms by (rule nat_toGB_exact)

lemma bytesToGB_bounds:
  "\<exists>g. bytesToGB b = Finite g \<and> 0 \<le> g \<and> g \<le> 2 ^ 35 \<and> (b \<noteq> 0 \<longrightarrow> 1 / 2 ^ 31 \<le> g)
       \<and> \<bar>g - real (unat b) / 2 ^ 30\<bar> \<le> real (unat b) / 2 ^ 30 / 2 ^ 53"
proof -
  have z: "b \<noteq> 0 \<longrightarrow> unat b \<noteq> 0" by (simp add: unat_eq_0)
  show ?thesis
    unfolding bytesToGB_nat using nat_toGB_bounds [OF unat64_lt, of b] z by blast
qed

lemma bytesToGB_zero: "bytesToGB 0 = Finite 0"
  by (simp add: bytesToGB_def f64_of_uint64_def f64_round_def)

lemma percent_finite:
  assumes "t \<noteq> 0"
  shows "\<exists>r. f64_div (bytesToGB u) (bytesToGB t) = Finite r \<and> 0 \<le> r"
proof -
  obtain gu where gu: "bytesToGB u = Finite gu" "0 \<le> gu" "gu \<le> 2 ^ 35"
    using bytesToGB_bounds [of u] by blast
  obtain gt where gt: "bytesToGB t = Finite gt" "1 / 2 ^ 31 \<le> gt"
    using bytesToGB_bounds [of t] assms by blast
  have gt0: "0 < gt" using gt(2) by (rule less_le_trans [rotated]) simp
  have d: "f64_div (bytesToGB u) (bytesToGB t) = f64_round (gu / gt)"
    using gu(1) gt(1) gt0 by simp
  show ?thesis
  proof (cases "gu = 0")
    case True
    then show ?thesis using d by (simp add: f64_round_def)
  next
    case False
    then have q0: "0 < gu / gt" using gu(2) gt0 by simp
    have "gu / gt \<le> 2 ^ 35 / gt" using gu(3) gt0 by (simp add: divide_right_mono)
    also have "\<dots> \<le> 2 ^ 35 / (1 / 2 ^ 31)" using gt(2) by (intro divide_left_mono) auto
    also have "\<dots> = 2 ^ 66" by simp
    also have "\<dots> < 2 ^ 67" by simp
    finally have "gu / gt < f64_huge / 2" using f64_huge_gt(2) by linarith
    from f64_round_finite [OF q0 this] d show ?thesis by auto
  qed
qed

lemma percent_zero_total:
  "f64_div (bytesToGB u) (bytesToGB 0) = (if u = 0 then NaN else PosInf)"
proof -
  obtain gu where gu: "bytesToGB u = Finite gu" "0 \<le> gu" "u \<noteq> 0 \<longrightarrow> 1 / 2 ^ 31 \<le> gu"
    using bytesToGB_bounds [of u] by blast
  show ?thesis
  proof (cases "u = 0")
    case True
    then show ?thesis by (simp add: bytesToGB_zero)
  next
    case False
    with gu(3) have "1 / 2 ^ 31 \<le> gu" by simp
    then have "0 < gu" by (rule less_le_trans [rotated]) simp
    with False gu(1) show ?thesis by (simp add: bytesToGB_zero)
  qed
qed

section \<open>The reconciliation loop on the entries\<close>

lemma updateDisk_None: "updateDisk lib mp u t ds = None \<longleftrightarrow> mp \<notin> Mountpoint ` set ds"
  by (induction ds) (auto simp: Let_def split: option.splits)

lemma updateDisk_Some:
  "updateDisk lib mp u t ds = Some (ds', c) \<Longrightarrow>
     map diskData ds' = setFirst mp (u, t) (map diskData ds)"
  by (induction ds arbitrary: ds') (auto simp: Let_def diskData_def split: option.splits if_splits)

lemma fst_set_diskData: "fst ` diskData ` set ds = Mountpoint ` set ds"
  by (simp add: image_image diskData_def)

lemma reconcilePartition_data:
  "map diskData (fst (reconcilePartition lib (ds, cmds) p)) = stepData (map diskData ds) p"
proof (cases p)
  case (Pair mp r)
  show ?thesis
  proof (cases r)
    case (Inl e)
    with Pair show ?thesis by simp
  next
    case (Inr usage)
    show ?thesis
    proof (cases "updateDisk lib mp (bytesToGB (usage_Used usage)) (bytesToGB (usage_Total usage)) ds")
      case None
      then have "mp \<notin> fst ` set (map diskData ds)"
        by (simp add: updateDisk_None fst_set_diskData)
      with None Pair Inr show ?thesis
        by (simp add: upsert_def Let_def diskData_def)
    next
      case (Some a)
      obtain ds' c where a: "a = (ds', c)" by (cases a)
      from Some a have "mp \<in> Mountpoint ` set ds"
        using updateDisk_None [of lib mp "bytesToGB (usage_Used usage)" "bytesToGB (usage_Total usage)" ds]
        by auto
      then have "mp \<in> fst ` set (map diskData ds)"
        by (simp add: fst_set_diskData)
      with Some a Pair Inr updateDisk_Some [of lib mp _ _ ds ds' c] show ?thesis
        by (simp add: upsert_def)
    qed
  qed
qed

lemma reconcilePartitions_data:
  "map diskData (fst (reconcilePartitions lib ps (ds, cmds))) = foldl stepData (map diskData ds) ps"
proof (induction ps arbitrary: ds cmds)
  case Nil
  show ?case by (simp add: reconcilePartitions_def)
next
  case (Cons p ps)
  obtain ds1 cmds1 where st: "reconcilePartition lib (ds, cmds) p = (ds1, cmds1)"
    by (cases "reconcilePartition lib (ds, cmds) p")
  have "map diskData ds1 = stepData (map diskData ds) p"
    using reconcilePartition_data [of lib ds cmds p] st by simp
  with Cons.IH [of ds1 cmds1] st show ?case
    by (simp add: reconcilePartitions_def)
qed

lemma map_fst_setFirst: "map fst (setFirst mp v xs) = map fst xs"
  by (induction xs) auto

lemma length_setFirst: "length (setFirst mp v xs) = length xs"
  by (induction xs) auto

lemma keys_setFirst: "fst ` set (setFirst mp v xs) = fst ` set xs"
  using map_fst_setFirst [of mp v xs] by (metis list.set_map)

lemma keys_upsert: "fst ` set (upsert mp v xs) = insert mp (fst ` set xs)"
  by (auto simp: upsert_def keys_setFirst)

lemma setFirst_setFirst: "setFirst mp v (setFirst mp v' xs) = setFirst mp v xs"
  by (induction xs) auto

lemma setFirst_commute:
  "mp \<noteq> mp' \<Longrightarrow> setFirst mp v (setFirst mp' v' xs) = setFirst mp' v' (setFirst mp v xs)"
  by (induction xs) auto

lemma setFirst_append:
  "mp \<in> fst ` set xs \<Longrightarrow> setFirst mp v (xs @ ys) = setFirst mp v xs @ ys"
  by (induction xs) force+

lemma setFirst_snoc_other:
  "mp \<notin> fst ` set xs \<Longrightarrow> setFirst mp v (xs @ [(mp, w)]) = xs @ [(mp, v)]"
  by (induction xs) auto

lemma upsert_upsert: "upsert mp v (upsert mp v' xs) = upsert mp v xs"
  by (auto simp: upsert_def keys_setFirst setFirst_setFirst setFirst_snoc_other)

lemma upsert_commute:
  assumes "mp \<noteq> mp'" and "mp' \<in> fst ` set xs"
  shows "upsert mp' v' (upsert mp v xs) = upsert mp v (upsert mp' v' xs)"
  using assms
  by (auto simp: upsert_def keys_setFirst setFirst_commute setFirst_append)

lemma okKeys_Cons_Inl: "okKeys ((mp, Inl e) # ps) = okKeys ps"
  by (auto simp: okKeys_def)

lemma okKeys_Cons_Inr: "okKeys ((mp, Inr u) # ps) = insert mp (okKeys ps)"
  by (auto simp: okKeys_def)

lemma okKeys_Nil: "okKeys [] = {}"
  by (simp add: okKeys_def)

lemma keys_stepData: "fst ` set xs \<subseteq> fst ` set (stepData xs p)"
  by (cases p; cases "snd p") (auto simp: keys_upsert)

lemma keys_foldl_mono: "fst ` set xs \<subseteq> fst ` set (foldl stepData xs ps)"
proof (induction ps arbitrary: xs)
  case Nil show ?case by simp
next
  case (Cons p ps)
  show ?case using keys_stepData [of xs p] Cons.IH [of "stepData xs p"] by auto
qed

lemma okKeys_foldl: "okKeys ps \<subseteq> fst ` set (foldl stepData xs ps)"
proof (induction ps arbitrary: xs)
  case Nil show ?case by (simp add: okKeys_Nil)
next
  case (Cons p ps)
  obtain mp r where p: "p = (mp, r)" by (cases p)
  show ?case
  proof (cases r)
    case (Inl e)
    with p Cons.IH [of xs] show ?thesis by (simp add: okKeys_Cons_Inl)
  next
    case (Inr u)
    have "mp \<in> fst ` set (stepData xs p)" using p Inr by (simp add: keys_upsert)
    then have "mp \<in> fst ` set (foldl stepData (stepData xs p) ps)"
      using keys_foldl_mono by blast
    with p Inr Cons.IH [of "stepData xs p"] show ?thesis
      by (simp add: okKeys_Cons_Inr)
  qed
qed

lemma upsert_foldl:
  "okKeys ps \<subseteq> fst ` set xs \<Longrightarrow>
     upsert mp v (foldl stepData (upsert mp v xs) ps) = upsert mp v (foldl stepData xs ps)"
proof (induction ps arbitrary: xs)
  case Nil
  show ?case by (simp add: upsert_upsert)
next
  case (Cons p ps)
  obtain mp' r where p: "p = (mp', r)" by (cases p)
  show ?case
  proof (cases r)
    case (Inl e)
    with p Cons show ?thesis by (simp add: okKeys_Cons_Inl)
  next
    case (Inr u)
    let ?v' = "(bytesToGB (usage_Used u), bytesToGB (usage_Total u))"
    from Cons.prems p Inr have in_xs: "mp' \<in> fst ` set xs" and rest: "okKeys ps \<subseteq> fst ` set xs"
      by (auto simp: okKeys_Cons_Inr)
    have rest': "okKeys ps \<subseteq> fst ` set (upsert mp' ?v' xs)"
      using rest by (auto simp: keys_upsert)
    show ?thesis
    proof (cases "mp' = mp")
      case True
      with p Inr show ?thesis by (simp add: upsert_upsert)
    next
      case False
      then have "upsert mp' ?v' (upsert mp v xs) = upsert mp v (upsert mp' ?v' xs)"
        using upsert_commute [of mp mp' xs ?v' v] in_xs by simp
      with p Inr Cons.IH [OF rest'] show ?thesis by simp
    qed
  qed
qed

lemma foldl_stepData_idem:
  "foldl stepData (foldl stepData xs ps) ps = foldl stepData xs ps"
proof (induction ps rule: rev_induct)
  case Nil show ?case by simp
next
  case (snoc p ps)
  obtain mp r where p: "p = (mp, r)" by (cases p)
  let ?E = "foldl stepData xs ps"
  show ?case
  proof (cases r)
    case (Inl e)
    with p snoc show ?thesis by simp
  next
    case (Inr u)
    let ?v = "(bytesToGB (usage_Used u), bytesToGB (usage_Total u))"
    have sub: "okKeys ps \<subseteq> fst ` set ?E" by (rule okKeys_foldl)
    have "foldl stepData (foldl stepData xs (ps @ [p])) (ps @ [p])
            = upsert mp ?v (foldl stepData (upsert mp ?v ?E) ps)"
      using p Inr by simp
    also have "\<dots> = upsert mp ?v (foldl stepData ?E ps)"
      by (rule upsert_foldl [OF sub])
    also have "\<dots> = upsert mp ?v ?E" by (simp add: snoc.IH)
    also have "\<dots> = foldl stepData xs (ps @ [p])" using p Inr by simp
    finally show ?thesis .
  qed
qed

section \<open>Update, by message\<close>

lemma updateDiskProgress_data:
  "map diskData (fst (updateDiskProgress lib e ds)) = map diskData ds"
  by (induction ds) (auto simp: diskData_def split: tea_Model.splits prod.splits)

lemma updateDiskProgress_ok:
  "castsOk lib \<Longrightarrow> snd (snd (updateDiskProgress lib e ds)) = None"
  by (induction ds) (auto simp: castsOk_def split: tea_Model.splits prod.splits)

lemma updateDiskProgress_cmds:
  "\<forall>c \<in> set (fst (snd (updateDiskProgress lib e ds))). \<exists>p. c = ProgressUpdate p e"
  by (induction ds) (auto split: tea_Model.splits prod.splits)

lemma Update_Inl: "switch lib s m e = Inl r \<Longrightarrow> Update lib s m e = r"
  by (simp add: Update_def)

lemma Update_Inr_frame:
  assumes "switch lib s m e = Inr (m1, cmds)"
  shows "cpuUsage (fst (Update lib s m e)) = cpuUsage m1"
    and "memUsed (fst (Update lib s m e)) = memUsed m1"
    and "memTotal (fst (Update lib s m e)) = memTotal m1"
    and "sysInfo (fst (Update lib s m e)) = sysInfo m1"
    and "width (fst (Update lib s m e)) = width m1"
    and "height (fst (Update lib s m e)) = height m1"
    and "map diskData (disks (fst (Update lib s m e))) = map diskData (disks m1)"
  using assms updateDiskProgress_data [of lib e "disks m1"]
  by (auto simp: Update_def Let_def split: tea_Model.splits prod.splits option.splits)

lemma Update_Inr_ok:
  assumes "castsOk lib" and "switch lib s m e = Inr (m1, cmds)"
  shows "err (fst (Update lib s m e)) = err m1"
    and "\<exists>cs. snd (Update lib s m e) = Batch (cmds @ cs)
              \<and> (\<forall>c \<in> set cs. \<exists>p. c = ProgressUpdate p e)"
proof -
  obtain ds cs r where u: "updateDiskProgress lib e (disks m1) = (ds, cs, r)"
    by (cases "updateDiskProgress lib e (disks m1)")
  have r: "r = None" using updateDiskProgress_ok [OF assms(1), of e "disks m1"] u by simp
  have cs: "\<forall>c \<in> set cs. \<exists>p. c = ProgressUpdate p e"
    using updateDiskProgress_cmds [of lib e "disks m1"] u by simp
  obtain cpuP where c: "pl_Update lib (cpuProgress m1) e = ProgressModel cpuP"
    using assms(1) by (cases "pl_Update lib (cpuProgress m1) e") (auto simp: castsOk_def)
  obtain memP where mp: "pl_Update lib (memProgress m1) e = ProgressModel memP"
    using assms(1) by (cases "pl_Update lib (memProgress m1) e") (auto simp: castsOk_def)
  show "err (fst (Update lib s m e)) = err m1"
    using assms(2) u r c mp by (simp add: Update_def Let_def)
  have "snd (Update lib s m e)
          = Batch (cmds @ ([ProgressUpdate (cpuProgress m1) e, ProgressUpdate (memProgress m1) e] @ cs))"
    using assms(2) u r c mp by (simp add: Update_def Let_def)
  moreover have "\<forall>c \<in> set ([ProgressUpdate (cpuProgress m1) e, ProgressUpdate (memProgress m1) e] @ cs).
                   \<exists>p. c = ProgressUpdate p e"
    using cs by simp
  ultimately show "\<exists>cs. snd (Update lib s m e) = Batch (cmds @ cs)
              \<and> (\<forall>c \<in> set cs. \<exists>p. c = ProgressUpdate p e)"
    by blast
qed

lemma tick_Inl_data:
  "tick lib s m = Inl r \<Longrightarrow> map diskData (disks (fst r)) = map diskData (disks m) \<and> snd r = Quit
     \<and> cpuUsage (fst r) = cpuUsage m"
  by (auto simp: tick_def getMemUsage_def getSysInfo_def Let_def
           split: sum.splits prod.splits if_splits)

lemma tick_Inl_iff:
  "(\<exists>r. tick lib s m = Inl r) \<longleftrightarrow>
     (isl (virtualMemory s) \<or> isl (hostInfo s) \<or> isl (partitions s))"
  by (auto simp: tick_def getMemUsage_def getSysInfo_def Let_def
           split: sum.splits prod.splits if_splits)

lemma tick_Inr:
  assumes "virtualMemory s = Inr ms" "hostInfo s = Inr h" "partitions s = Inr ps"
  shows "\<exists>m1 cmds. tick lib s m = Inr (m1, cmds)
           \<and> map diskData (disks m1) = foldl stepData (map diskData (disks m)) ps
           \<and> cpuUsage m1 = cpuUsage m \<and> err m1 = err m
           \<and> memUsed m1 = bytesToGB (mem_Used ms) \<and> memTotal m1 = bytesToGB (mem_Total ms)
           \<and> width m1 = width m \<and> height m1 = height m \<and> sysInfo m1 = h
           \<and> TickCmd \<in> set cmds"
proof -
  obtain ds cmds where rp: "reconcilePartitions lib ps (disks m, []) = (ds, cmds)"
    by (cases "reconcilePartitions lib ps (disks m, [])")
  have "map diskData ds = foldl stepData (map diskData (disks m)) ps"
    using reconcilePartitions_data [of lib ps "disks m" "[]"] rp by simp
  with rp assms show ?thesis
    by (simp add: tick_def getMemUsage_def getSysInfo_def Let_def)
qed

lemma Update_tick_data:
  "map diskData (disks (fst (Update lib s m TickMsg))) = tickData s (map diskData (disks m))"
proof (cases "tick lib s m")
  case (Inl r)
  then have "(isl (virtualMemory s) \<or> isl (hostInfo s) \<or> isl (partitions s))"
    using tick_Inl_iff [of lib s m] by blast
  then have "tickData s (map diskData (disks m)) = map diskData (disks m)"
    by (auto simp: tickData_def split: sum.splits)
  with Inl tick_Inl_data [OF Inl] show ?thesis
    by (simp add: Update_Inl)
next
  case (Inr b)
  obtain m1 cmds where b: "b = (m1, cmds)" by (cases b)
  from Inr have "\<not> isl (virtualMemory s) \<and> \<not> isl (hostInfo s) \<and> \<not> isl (partitions s)"
    using tick_Inl_iff [of lib s m] by auto
  then obtain ms h ps where q: "virtualMemory s = Inr ms" "hostInfo s = Inr h" "partitions s = Inr ps"
    by (cases "virtualMemory s"; cases "hostInfo s"; cases "partitions s") auto
  from tick_Inr [OF q, of lib m] Inr b
  have "map diskData (disks m1) = foldl stepData (map diskData (disks m)) ps" by auto
  moreover have "map diskData (disks (fst (Update lib s m TickMsg))) = map diskData (disks m1)"
    using Update_Inr_frame(7) [of lib s m TickMsg m1 cmds] Inr b by simp
  ultimately show ?thesis using q by (simp add: tickData_def)
qed

lemma tickData_idem: "tickData s (tickData s xs) = tickData s xs"
  by (auto simp: tickData_def foldl_stepData_idem split: sum.splits)

lemma okKeys_iff: "mp \<in> okKeys ps \<longleftrightarrow> (\<exists>u. (mp, Inr u) \<in> set ps)"
proof (induction ps)
  case Nil show ?case by (simp add: okKeys_Nil)
next
  case (Cons p ps)
  obtain k r where p: "p = (k, r)" by (cases p)
  show ?case using Cons p
    by (cases r) (auto simp: okKeys_Cons_Inl okKeys_Cons_Inr)
qed

lemma okKeys_subset: "okKeys ps \<subseteq> fst ` set ps"
  by (auto simp: okKeys_def)

lemma nth_setFirst:
  "i < length xs \<Longrightarrow>
     fst (setFirst mp v xs ! i) = fst (xs ! i) \<and>
     (fst (xs ! i) \<noteq> mp \<longrightarrow> setFirst mp v xs ! i = xs ! i)"
proof (induction xs arbitrary: i)
  case Nil then show ?case by simp
next
  case (Cons x xs)
  obtain k w where x: "x = (k, w)" by (cases x)
  show ?case using Cons x by (cases i) auto
qed

lemma nth_upsert:
  "i < length xs \<Longrightarrow>
     fst (upsert mp v xs ! i) = fst (xs ! i) \<and>
     (fst (xs ! i) \<noteq> mp \<longrightarrow> upsert mp v xs ! i = xs ! i)"
  by (simp add: upsert_def nth_setFirst nth_append)

lemma length_upsert: "length xs \<le> length (upsert mp v xs)"
  by (simp add: upsert_def length_setFirst)

lemma length_stepData: "length xs \<le> length (stepData xs p)"
  by (cases p; cases "snd p") (auto simp: length_upsert)

lemma nth_stepData:
  "i < length xs \<Longrightarrow>
     fst (stepData xs p ! i) = fst (xs ! i) \<and>
     (fst (xs ! i) \<notin> okKeys [p] \<longrightarrow> stepData xs p ! i = xs ! i)"
  by (cases p; cases "snd p") (auto simp: nth_upsert okKeys_def)

lemma length_foldl_stepData: "length xs \<le> length (foldl stepData xs ps)"
proof (induction ps arbitrary: xs)
  case Nil show ?case by simp
next
  case (Cons p ps)
  show ?case using length_stepData [of xs p] Cons.IH [of "stepData xs p"] by simp
qed

lemma okKeys_Cons: "okKeys (p # ps) = okKeys [p] \<union> okKeys ps"
  by (auto simp: okKeys_def)

lemma nth_foldl_stepData:
  "i < length xs \<Longrightarrow>
     fst (foldl stepData xs ps ! i) = fst (xs ! i) \<and>
     (fst (xs ! i) \<notin> okKeys ps \<longrightarrow> foldl stepData xs ps ! i = xs ! i)"
proof (induction ps arbitrary: xs)
  case Nil show ?case by simp
next
  case (Cons p ps)
  have i1: "i < length (stepData xs p)" using Cons.prems length_stepData [of xs p] by simp
  show ?case
    using nth_stepData [OF Cons.prems, of p] Cons.IH [OF i1] okKeys_Cons [of p ps] by auto
qed

lemma keys_foldl_stepData: "fst ` set (foldl stepData xs ps) = fst ` set xs \<union> okKeys ps"
proof (induction ps arbitrary: xs)
  case Nil show ?case by (simp add: okKeys_Nil)
next
  case (Cons p ps)
  obtain mp r where p: "p = (mp, r)" by (cases p)
  show ?case using Cons.IH [of "stepData xs p"] p
    by (cases r) (auto simp: okKeys_Cons_Inl okKeys_Cons_Inr keys_upsert)
qed

lemma new_keys_foldl_stepData:
  "\<exists>new. map fst (foldl stepData xs ps) = map fst xs @ new \<and> distinct new
        \<and> set new \<inter> fst ` set xs = {}"
proof (induction ps arbitrary: xs)
  case Nil show ?case by simp
next
  case (Cons p ps)
  obtain new where n: "map fst (foldl stepData (stepData xs p) ps) = map fst (stepData xs p) @ new"
      "distinct new" "set new \<inter> fst ` set (stepData xs p) = {}"
    using Cons.IH [of "stepData xs p"] by blast
  obtain mp r where p: "p = (mp, r)" by (cases p)
  show ?case
  proof (cases "\<exists>u. r = Inr u \<and> mp \<notin> fst ` set xs")
    case True
    then obtain u where u: "r = Inr u" "mp \<notin> fst ` set xs" by blast
    then have s: "map fst (stepData xs p) = map fst xs @ [mp]"
      using p by (simp add: upsert_def)
    have k: "fst ` set (stepData xs p) = insert mp (fst ` set xs)"
      using s by (metis list.set_map set_append list.simps(15) Un_insert_right sup_bot.right_neutral empty_set)
    have "map fst (foldl stepData xs (p # ps)) = map fst xs @ (mp # new)"
      using n(1) s by simp
    moreover have "distinct (mp # new)" using n(2,3) k by auto
    moreover have "set (mp # new) \<inter> fst ` set xs = {}" using n(3) k u(2) by auto
    ultimately show ?thesis by blast
  next
    case False
    then have s: "map fst (stepData xs p) = map fst xs"
      using p by (cases r) (auto simp: upsert_def map_fst_setFirst)
    then have k: "fst ` set (stepData xs p) = fst ` set xs"
      by (metis list.set_map)
    show ?thesis using n s k by auto
  qed
qed

lemma map_of_setFirst_at:
  "map_of (setFirst mp v xs) k =
     (if k = mp then map_option (\<lambda>_. v) (map_of xs mp) else map_of xs k)"
  by (induction xs) auto

lemma map_of_setFirst:
  assumes "mp \<in> fst ` set xs"
  shows "map_of (setFirst mp v xs) = (map_of xs)(mp \<mapsto> v)"
proof
  fix k
  from assms obtain w where "map_of xs mp = Some w"
    by (metis map_of_eq_None_iff not_Some_eq)
  then show "map_of (setFirst mp v xs) k = ((map_of xs)(mp \<mapsto> v)) k"
    by (simp add: map_of_setFirst_at)
qed

lemma map_of_upsert: "map_of (upsert mp v xs) = (map_of xs)(mp \<mapsto> v)"
proof (cases "mp \<in> fst ` set xs")
  case True
  then show ?thesis by (simp add: upsert_def map_of_setFirst)
next
  case False
  then have "map_of xs mp = None" by (simp add: map_of_eq_None_iff)
  with False show ?thesis
    by (auto simp: upsert_def fun_eq_iff map_add_def split: option.splits)
qed

lemma map_of_foldl_untouched:
  "x \<notin> okKeys ps \<Longrightarrow> map_of (foldl stepData xs ps) x = map_of xs x"
proof (induction ps arbitrary: xs)
  case Nil show ?case by simp
next
  case (Cons p ps)
  obtain mp r where p: "p = (mp, r)" by (cases p)
  show ?case using Cons p
    by (cases r) (auto simp: okKeys_Cons_Inl okKeys_Cons_Inr map_of_upsert)
qed

lemma map_of_foldl_single:
  assumes "(x, Inr u) \<in> set ps" and "\<And>u'. (x, Inr u') \<in> set ps \<Longrightarrow> u' = u"
  shows "map_of (foldl stepData xs ps) x = Some (bytesToGB (usage_Used u), bytesToGB (usage_Total u))"
  using assms
proof (induction ps arbitrary: xs)
  case Nil then show ?case by simp
next
  case (Cons p ps)
  obtain mp r where p: "p = (mp, r)" by (cases p)
  show ?case
  proof (cases "x \<in> okKeys ps")
    case True
    then obtain u1 where u1: "(x, Inr u1) \<in> set ps" using okKeys_iff [of x ps] by blast
    then have "(x, Inr u1) \<in> set (p # ps)" by simp
    then have "u1 = u" by (rule Cons.prems(2))
    with u1 have a: "(x, Inr u) \<in> set ps" by simp
    have b: "\<And>u'. (x, Inr u') \<in> set ps \<Longrightarrow> u' = u"
    proof -
      fix u' assume "(x, Inr u') \<in> set ps"
      then have "(x, Inr u') \<in> set (p # ps)" by simp
      then show "u' = u" by (rule Cons.prems(2))
    qed
    have "map_of (foldl stepData (stepData xs p) ps) x
            = Some (bytesToGB (usage_Used u), bytesToGB (usage_Total u))"
      using a b by (rule Cons.IH)
    then show ?thesis by simp
  next
    case False
    then have "(x, Inr u) \<notin> set ps" using okKeys_iff [of x ps] by blast
    with Cons.prems(1) p have pe: "mp = x" "r = Inr u" by auto
    have "map_of (foldl stepData (stepData xs p) ps) x = map_of (stepData xs p) x"
      by (rule map_of_foldl_untouched [OF False])
    with p pe show ?thesis by (simp add: map_of_upsert)
  qed
qed

lemma reconcilePartition_Inl: "reconcilePartition lib st (y, Inl e) = st"
  by (cases st) simp

lemma reconcilePartitions_skip:
  "reconcilePartitions lib (ps1 @ (y, Inl e) # ps2) st = reconcilePartitions lib (ps1 @ ps2) st"
  by (simp add: reconcilePartitions_def reconcilePartition_Inl)

section \<open>The properties of the specification\<close>

lemma castsOk_idle: "castsOk idleProgress"
  by (simp add: castsOk_def idleProgress_def)

text \<open>
  C1 (append-only growth). The state holds the disks A and B, the tick reaches
  the partition query, which returns A, B and a third mount point C, and every
  usage query succeeds: the entries are then A, B, C in this order, A and B with
  the new values at their old positions and C at the end.
\<close>

theorem tick_appends_new_partition:
  assumes "disks m = [dA, dB]" and "Mountpoint dA = a" and "Mountpoint dB = b"
    and "distinct [a, b, c]"
    and "virtualMemory s = Inr ms" and "hostInfo s = Inr h"
    and "partitions s = Inr [(a, Inr ua), (b, Inr ub), (c, Inr uc)]"
  shows "map diskData (disks (fst (Update lib s m TickMsg))) =
           [(a, bytesToGB (usage_Used ua), bytesToGB (usage_Total ua)),
            (b, bytesToGB (usage_Used ub), bytesToGB (usage_Total ub)),
            (c, bytesToGB (usage_Used uc), bytesToGB (usage_Total uc))]"
proof -
  have "map diskData (disks m) = [(a, Used dA, Total dA), (b, Used dB, Total dB)]"
    using assms(1-3) by (simp add: diskData_def)
  then show ?thesis
    using assms(4-7) by (auto simp: Update_tick_data tickData_def upsert_def)
qed

theorem tick_appends_new_partition_witness:
  "disks exModel = [rootDisk, homeDisk] \<and> Mountpoint rootDisk = ''/'' \<and> Mountpoint homeDisk = ''/home''
   \<and> distinct [''/'', ''/home'', ''/mnt'']
   \<and> virtualMemory growSys = Inr exMem \<and> hostInfo growSys = Inr ''Hostname: h''
   \<and> partitions growSys = Inr [(''/'', Inr usageA), (''/home'', Inr usageB), (''/mnt'', Inr usageC)]
   \<and> map diskData (disks (fst (Update idleProgress growSys exModel TickMsg))) =
           [(''/'', bytesToGB (usage_Used usageA), bytesToGB (usage_Total usageA)),
            (''/home'', bytesToGB (usage_Used usageB), bytesToGB (usage_Total usageB)),
            (''/mnt'', bytesToGB (usage_Used usageC), bytesToGB (usage_Total usageC))]"
proof -
  have h1: "disks exModel = [rootDisk, homeDisk]" by (simp add: exModel_def)
  have h2: "Mountpoint rootDisk = ''/''" by (simp add: rootDisk_def)
  have h3: "Mountpoint homeDisk = ''/home''" by (simp add: homeDisk_def)
  have h4: "distinct [''/'', ''/home'', ''/mnt'']" by simp
  have h5: "virtualMemory growSys = Inr exMem" by (simp add: growSys_def)
  have h6: "hostInfo growSys = Inr ''Hostname: h''" by (simp add: growSys_def)
  have h7: "partitions growSys = Inr [(''/'', Inr usageA), (''/home'', Inr usageB), (''/mnt'', Inr usageC)]"
    by (simp add: growSys_def)
  show ?thesis
    using tick_appends_new_partition [OF h1 h2 h3 h4 h5 h6 h7, of idleProgress] h1 h2 h3 h5 h6 h7
    by simp
qed

text \<open>
  C2 (stale entries are kept). A tick never removes an entry: the list does not
  get shorter, every position keeps its mount point, and an entry whose mount
  point the partition query did not return keeps its used and total values.
\<close>

theorem tick_never_removes:
  "length (disks m) \<le> length (disks (fst (Update lib s m TickMsg))) \<and>
   (\<forall>i < length (disks m).
      Mountpoint (disks (fst (Update lib s m TickMsg)) ! i) = Mountpoint (disks m ! i) \<and>
      ((\<forall>ps. partitions s = Inr ps \<longrightarrow> Mountpoint (disks m ! i) \<notin> fst ` set ps) \<longrightarrow>
         Used (disks (fst (Update lib s m TickMsg)) ! i) = Used (disks m ! i) \<and>
         Total (disks (fst (Update lib s m TickMsg)) ! i) = Total (disks m ! i)))"
proof -
  let ?m' = "fst (Update lib s m TickMsg)"
  let ?xs = "map diskData (disks m)"
  have d: "map diskData (disks ?m') = tickData s ?xs" by (rule Update_tick_data)
  have len: "length (disks m) \<le> length (disks ?m')"
  proof -
    have "length ?xs \<le> length (tickData s ?xs)"
      using length_foldl_stepData [of ?xs] by (auto simp: tickData_def split: sum.splits)
    with d show ?thesis by (metis length_map)
  qed
  have nth: "Mountpoint (disks ?m' ! i) = Mountpoint (disks m ! i) \<and>
      ((\<forall>ps. partitions s = Inr ps \<longrightarrow> Mountpoint (disks m ! i) \<notin> fst ` set ps) \<longrightarrow>
         Used (disks ?m' ! i) = Used (disks m ! i) \<and> Total (disks ?m' ! i) = Total (disks m ! i))"
    if i: "i < length (disks m)" for i
  proof -
    have i': "i < length (disks ?m')" using i len by simp
    have a: "diskData (disks ?m' ! i) = tickData s ?xs ! i"
      using d i' by (metis nth_map)
    have b: "?xs ! i = diskData (disks m ! i)" using i by simp
    have ix: "i < length ?xs" using i by simp
    have k: "fst (tickData s ?xs ! i) = fst (?xs ! i)"
      using nth_foldl_stepData [OF ix] by (auto simp: tickData_def split: sum.splits)
    have u: "tickData s ?xs ! i = ?xs ! i"
      if "\<forall>ps. partitions s = Inr ps \<longrightarrow> Mountpoint (disks m ! i) \<notin> fst ` set ps"
    proof (cases "partitions s")
      case (Inl e)
      then show ?thesis by (auto simp: tickData_def split: sum.splits)
    next
      case (Inr ps)
      with that have "Mountpoint (disks m ! i) \<notin> fst ` set ps" by simp
      then have "fst (?xs ! i) \<notin> okKeys ps"
        using okKeys_subset [of ps] b by (auto simp: diskData_def)
      then have "foldl stepData ?xs ps ! i = ?xs ! i"
        using nth_foldl_stepData [OF ix, of ps] by simp
      with Inr show ?thesis by (auto simp: tickData_def split: sum.splits)
    qed
    from a b k have "fst (diskData (disks ?m' ! i)) = fst (diskData (disks m ! i))"
      by simp
    then have "Mountpoint (disks ?m' ! i) = Mountpoint (disks m ! i)"
      by (simp add: diskData_def)
    moreover have "Used (disks ?m' ! i) = Used (disks m ! i) \<and> Total (disks ?m' ! i) = Total (disks m ! i)"
      if "\<forall>ps. partitions s = Inr ps \<longrightarrow> Mountpoint (disks m ! i) \<notin> fst ` set ps"
    proof -
      from u [OF that] a b have "diskData (disks ?m' ! i) = diskData (disks m ! i)" by simp
      then show ?thesis by (simp add: diskData_def)
    qed
    ultimately show ?thesis by blast
  qed
  from len nth show ?thesis by blast
qed

text \<open>The mount point \<open>/home\<close> is not returned: its entry stays, with its values.\<close>

theorem tick_never_removes_witness:
  "(1::nat) < length (disks exModel)
   \<and> partitions shrinkSys = Inr [(''/'', Inr usageA)]
   \<and> Mountpoint (disks exModel ! 1) \<notin> fst ` set [(''/'', Inr usageA)]
   \<and> length (disks exModel) \<le> length (disks (fst (Update idleProgress shrinkSys exModel TickMsg)))
   \<and> Mountpoint (disks (fst (Update idleProgress shrinkSys exModel TickMsg)) ! 1) = ''/home''
   \<and> Used (disks (fst (Update idleProgress shrinkSys exModel TickMsg)) ! 1) = Finite 3
   \<and> Total (disks (fst (Update idleProgress shrinkSys exModel TickMsg)) ! 1) = Finite 4"
proof -
  have h1: "(1::nat) < length (disks exModel)" by (simp add: exModel_def)
  have h2: "\<forall>ps. partitions shrinkSys = Inr ps \<longrightarrow> Mountpoint (disks exModel ! 1) \<notin> fst ` set ps"
    by (simp add: shrinkSys_def exModel_def homeDisk_def)
  note t = tick_never_removes [of exModel idleProgress shrinkSys]
  note t1 = t [THEN conjunct1]
  note t2 = t [THEN conjunct2, rule_format, OF h1]
  note t3 = t2 [THEN conjunct2, THEN mp, OF h2]
  have v: "Mountpoint (disks exModel ! 1) = ''/home''" "Used (disks exModel ! 1) = Finite 3"
      "Total (disks exModel ! 1) = Finite 4"
    by (simp_all add: exModel_def homeDisk_def)
  have h3: "partitions shrinkSys = Inr [(''/'', Inr usageA)]" by (simp add: shrinkSys_def)
  show ?thesis using h1 h3 t1 t2 [THEN conjunct1] t3 v by simp
qed

text \<open>
  C3 (idempotent reconciliation). A second tick with the same query results
  leaves the entries as the first one made them; and the mount points a tick
  adds are pairwise distinct and none of them was in the list before.
\<close>

theorem tick_idempotent:
  "map diskData (disks (fst (Update lib s (fst (Update lib s m TickMsg)) TickMsg)))
     = map diskData (disks (fst (Update lib s m TickMsg)))
   \<and> (\<exists>new. map Mountpoint (disks (fst (Update lib s m TickMsg))) = map Mountpoint (disks m) @ new
          \<and> distinct new \<and> set new \<inter> Mountpoint ` set (disks m) = {})"
proof -
  let ?m' = "fst (Update lib s m TickMsg)"
  let ?xs = "map diskData (disks m)"
  have mf: "map fst (map diskData ds) = map Mountpoint ds" for ds :: "'a Disk list"
    by (simp add: diskData_def)
  have "\<exists>new. map fst (tickData s ?xs) = map fst ?xs @ new \<and> distinct new
          \<and> set new \<inter> fst ` set ?xs = {}"
  proof (cases "tickData s ?xs = ?xs")
    case True
    then show ?thesis by simp
  next
    case False
    then obtain ps where "tickData s ?xs = foldl stepData ?xs ps"
      by (auto simp: tickData_def split: sum.splits)
    then show ?thesis using new_keys_foldl_stepData [of ?xs ps] by simp
  qed
  then obtain new where n: "map fst (tickData s ?xs) = map fst ?xs @ new" "distinct new"
      "set new \<inter> fst ` set ?xs = {}" by blast
  have "map Mountpoint (disks ?m') = map fst (map diskData (disks ?m'))" by (simp only: mf)
  also have "\<dots> = map fst ?xs @ new" using n(1) by (simp only: Update_tick_data)
  also have "\<dots> = map Mountpoint (disks m) @ new" by (simp only: mf)
  finally have 1: "map Mountpoint (disks ?m') = map Mountpoint (disks m) @ new" .
  have 2: "set new \<inter> Mountpoint ` set (disks m) = {}"
    using n(3) fst_set_diskData [of "disks m"] by simp
  show ?thesis using 1 2 n(2) by (auto simp: Update_tick_data tickData_idem)
qed

lemma Update_mem_failure:
  "virtualMemory s = Inl e \<Longrightarrow>
     Update lib s m TickMsg = (m\<lparr>memUsed := Finite 0, memTotal := Finite 0\<rparr>, Quit)"
  by (simp add: Update_def tick_def getMemUsage_def)

text \<open>
  C4 (fail-fast on a failed memory query). The tick ends with \<open>tea.Quit\<close>
  and touches neither the disks nor the CPU value, but the error field stays
  unset: only the branch of a failed partition query assigns \<open>m.err\<close>.
\<close>

theorem mem_failure_leaves_err_unset:
  "virtualMemory memFailSys = Inl (Err ''no meminfo'')
   \<and> snd (Update idleProgress memFailSys exModel TickMsg) = Quit
   \<and> disks (fst (Update idleProgress memFailSys exModel TickMsg)) = disks exModel
   \<and> cpuUsage (fst (Update idleProgress memFailSys exModel TickMsg)) = cpuUsage exModel
   \<and> err (fst (Update idleProgress memFailSys exModel TickMsg)) = None"
proof -
  have f: "virtualMemory memFailSys = Inl (Err ''no meminfo'')" by (simp add: memFailSys_def)
  show ?thesis
    using f by (simp add: Update_mem_failure [OF f] exModel_def)
qed

text \<open>
  C5 (partial partition failure). The usage query of the partition Y fails
  and that of X succeeds, in a tick that reaches the partition query. The tick
  then ends as it would without Y in the list; the first entry of X holds
  the values queried for X; every entry of Y is as before, and none is added
  for Y; and, the type assertions succeeding, the error field is unchanged and
  the result is the batch of commands, with the next tick among them, not
  \<open>tea.Quit\<close>.
\<close>

theorem usage_failure_skips_partition:
  assumes "virtualMemory s = Inr ms" and "hostInfo s = Inr h"
    and "partitions s = Inr (ps1 @ (y, Inl e) # ps2)"
    and "y \<notin> okKeys (ps1 @ ps2)"
    and "(x, Inr u) \<in> set (ps1 @ ps2)"
    and "\<forall>u'. (x, Inr u') \<in> set (ps1 @ ps2) \<longrightarrow> u' = u"
  shows "Update lib s m TickMsg = Update lib (s\<lparr>partitions := Inr (ps1 @ ps2)\<rparr>) m TickMsg
    \<and> map_of (map diskData (disks (fst (Update lib s m TickMsg)))) x
        = Some (bytesToGB (usage_Used u), bytesToGB (usage_Total u))
    \<and> (\<forall>i < length (disks m). Mountpoint (disks m ! i) = y \<longrightarrow>
          diskData (disks (fst (Update lib s m TickMsg)) ! i) = diskData (disks m ! i))
    \<and> (y \<notin> Mountpoint ` set (disks m) \<longrightarrow>
          y \<notin> Mountpoint ` set (disks (fst (Update lib s m TickMsg))))
    \<and> (castsOk lib \<longrightarrow>
          err (fst (Update lib s m TickMsg)) = err m \<and>
          (\<exists>cmds. snd (Update lib s m TickMsg) = Batch cmds \<and> TickCmd \<in> set cmds))"
proof -
  let ?m' = "fst (Update lib s m TickMsg)"
  let ?xs = "map diskData (disks m)"
  let ?ps = "ps1 @ (y, Inl e) # ps2"
  have d: "map diskData (disks ?m') = foldl stepData ?xs (ps1 @ ps2)"
    using assms(1-3) by (simp add: Update_tick_data tickData_def)
  have 1: "Update lib s m TickMsg = Update lib (s\<lparr>partitions := Inr (ps1 @ ps2)\<rparr>) m TickMsg"
    using assms(1-3)
    by (simp add: Update_def tick_def getMemUsage_def getSysInfo_def reconcilePartitions_skip)
  have 2: "map_of (map diskData (disks ?m')) x
        = Some (bytesToGB (usage_Used u), bytesToGB (usage_Total u))"
    unfolding d using assms(5) assms(6) by (intro map_of_foldl_single) auto
  have 3: "diskData (disks ?m' ! i) = diskData (disks m ! i)"
    if i: "i < length (disks m)" and y: "Mountpoint (disks m ! i) = y" for i
  proof -
    have ix: "i < length ?xs" using i by simp
    have "length ?xs \<le> length (map diskData (disks ?m'))"
      unfolding d by (rule length_foldl_stepData)
    then have i': "i < length (disks ?m')" using i by simp
    have "fst (?xs ! i) \<notin> okKeys (ps1 @ ps2)"
      using assms(4) i y by (simp add: diskData_def)
    then have "foldl stepData ?xs (ps1 @ ps2) ! i = ?xs ! i"
      using nth_foldl_stepData [OF ix, of "ps1 @ ps2"] by simp
    then have "map diskData (disks ?m') ! i = ?xs ! i" by (simp only: d)
    then show ?thesis using i i' by simp
  qed
  have 4: "y \<notin> Mountpoint ` set (disks ?m')" if "y \<notin> Mountpoint ` set (disks m)"
  proof -
    have "fst ` set (map diskData (disks ?m')) = fst ` set ?xs \<union> okKeys (ps1 @ ps2)"
      unfolding d by (rule keys_foldl_stepData)
    then have "Mountpoint ` set (disks ?m') = Mountpoint ` set (disks m) \<union> okKeys (ps1 @ ps2)"
      using fst_set_diskData [of "disks ?m'"] fst_set_diskData [of "disks m"] by simp
    with that assms(4) show ?thesis by simp
  qed
  have 5: "err ?m' = err m \<and> (\<exists>cmds. snd (Update lib s m TickMsg) = Batch cmds \<and> TickCmd \<in> set cmds)"
    if c: "castsOk lib"
  proof -
    obtain m1 cmds where t: "tick lib s m = Inr (m1, cmds)" "err m1 = err m" "TickCmd \<in> set cmds"
      using tick_Inr [OF assms(1-3), of lib m] by blast
    then have sw: "switch lib s m TickMsg = Inr (m1, cmds)" by simp
    from Update_Inr_ok [OF c sw] t show ?thesis by auto
  qed
  from 1 2 3 4 5 show ?thesis by blast
qed

theorem usage_failure_skips_partition_witness:
  "virtualMemory partialSys = Inr exMem \<and> hostInfo partialSys = Inr ''Hostname: h''
   \<and> partitions partialSys = Inr ([(''/'', Inr usageA)] @ (''/home'', Inl (Err ''permission denied'')) # [])
   \<and> ''/home'' \<notin> okKeys ([(''/'', Inr usageA)] @ [])
   \<and> (''/'', Inr usageA) \<in> set ([(''/'', Inr usageA)] @ [])
   \<and> (1::nat) < length (disks exModel) \<and> Mountpoint (disks exModel ! 1) = ''/home''
   \<and> castsOk idleProgress
   \<and> map_of (map diskData (disks (fst (Update idleProgress partialSys exModel TickMsg)))) ''/''
        = Some (bytesToGB (usage_Used usageA), bytesToGB (usage_Total usageA))
   \<and> diskData (disks (fst (Update idleProgress partialSys exModel TickMsg)) ! 1) = (''/home'', Finite 3, Finite 4)
   \<and> err (fst (Update idleProgress partialSys exModel TickMsg)) = None
   \<and> (\<exists>cmds. snd (Update idleProgress partialSys exModel TickMsg) = Batch cmds \<and> TickCmd \<in> set cmds)"
proof -
  have h1: "virtualMemory partialSys = Inr exMem" by (simp add: partialSys_def)
  have h2: "hostInfo partialSys = Inr ''Hostname: h''" by (simp add: partialSys_def)
  have h3: "partitions partialSys = Inr ([(''/'', Inr usageA)] @ (''/home'', Inl (Err ''permission denied'')) # [])"
    by (simp add: partialSys_def)
  have h4: "''/home'' \<notin> okKeys ([(''/'', Inr usageA)] @ [])" by (simp add: okKeys_def)
  have h5: "(''/'', Inr usageA) \<in> set ([(''/'', Inr usageA)] @ [])" by simp
  have h6: "\<forall>u'. (''/'', Inr u') \<in> set ([(''/'', Inr usageA)] @ []) \<longrightarrow> u' = usageA" by simp
  have h7: "(1::nat) < length (disks exModel)" by (simp add: exModel_def)
  have h8: "Mountpoint (disks exModel ! 1) = ''/home''" by (simp add: exModel_def homeDisk_def)
  have v: "diskData (disks exModel ! 1) = (''/home'', Finite 3, Finite 4)" "err exModel = None"
    by (simp_all add: exModel_def homeDisk_def diskData_def)
  note t = usage_failure_skips_partition [OF h1 h2 h3 h4 h5 h6, of idleProgress exModel]
  note t2 = t [THEN conjunct2, THEN conjunct1]
  note t3 = t [THEN conjunct2, THEN conjunct2, THEN conjunct1, rule_format, OF h7 h8]
  note t5 = t [THEN conjunct2, THEN conjunct2, THEN conjunct2, THEN conjunct2, THEN mp, OF castsOk_idle]
  show ?thesis
    using h1 h2 h3 h4 h5 h7 h8 castsOk_idle t2 t3 t5 v by simp
qed

lemma updateDiskProgress_id:
  assumes "\<forall>p. pl_Update lib p e = ProgressModel p"
  shows "updateDiskProgress lib e ds = (ds, map (\<lambda>d. ProgressUpdate (Progress d) e) ds, None)"
  using assms by (induction ds) auto

lemma switch_cpu:
  "switch lib s m (CpuUsageMsg v) =
     Inr (m\<lparr>cpuUsage := v,
            cpuProgress := pl_SetPercent lib (cpuProgress m) (f64_div v (Finite 100))\<rparr>,
          [ProgressSetPercent (cpuProgress m) (f64_div v (Finite 100)), StartCPUUsageMonitor])"
  by (simp add: Let_def)

text \<open>
  C6 (CPU decoupling). A failed \<open>cpu.Percent\<close> makes the sampler report 0.
  \<open>Update\<close> on that message sets the CPU value to 0 and leaves the memory
  values and the disk entries alone; the type assertions succeeding, it leaves
  the error field alone and returns the batch of commands, with the next run of
  the sampler among them.
\<close>

theorem cpu_failure_reports_zero:
  "startCPUUsageMonitor (Inl x) = CpuUsageMsg (Finite 0)
   \<and> cpuUsage (fst (Update lib s m (startCPUUsageMonitor (Inl x)))) = Finite 0
   \<and> memUsed (fst (Update lib s m (startCPUUsageMonitor (Inl x)))) = memUsed m
   \<and> memTotal (fst (Update lib s m (startCPUUsageMonitor (Inl x)))) = memTotal m
   \<and> map diskData (disks (fst (Update lib s m (startCPUUsageMonitor (Inl x)))))
        = map diskData (disks m)
   \<and> (castsOk lib \<longrightarrow>
        err (fst (Update lib s m (startCPUUsageMonitor (Inl x)))) = err m \<and>
        (\<exists>cmds. snd (Update lib s m (startCPUUsageMonitor (Inl x))) = Batch cmds
                \<and> StartCPUUsageMonitor \<in> set cmds))"
proof -
  have e: "startCPUUsageMonitor (Inl x) = CpuUsageMsg (Finite 0)"
    by (simp add: startCPUUsageMonitor_def)
  note sw = switch_cpu [of lib s m "Finite 0"]
  note fr = Update_Inr_frame [OF sw]
  have ok: "err (fst (Update lib s m (CpuUsageMsg (Finite 0)))) = err m \<and>
        (\<exists>cmds. snd (Update lib s m (CpuUsageMsg (Finite 0))) = Batch cmds
                \<and> StartCPUUsageMonitor \<in> set cmds)" if c: "castsOk lib"
    using Update_Inr_ok [OF c sw] by auto
  show ?thesis
    unfolding e using fr(1,2,3,7) ok by simp
qed

theorem cpu_failure_reports_zero_witness:
  "castsOk idleProgress
   \<and> startCPUUsageMonitor (Inl (Err ''no cpu'')) = CpuUsageMsg (Finite 0)
   \<and> cpuUsage (fst (Update idleProgress growSys exModel (startCPUUsageMonitor (Inl (Err ''no cpu''))))) = Finite 0
   \<and> err (fst (Update idleProgress growSys exModel (startCPUUsageMonitor (Inl (Err ''no cpu''))))) = None
   \<and> (\<exists>cmds. snd (Update idleProgress growSys exModel (startCPUUsageMonitor (Inl (Err ''no cpu'')))) = Batch cmds
                \<and> StartCPUUsageMonitor \<in> set cmds)"
proof -
  note t = cpu_failure_reports_zero [of "Err ''no cpu''" idleProgress growSys exModel]
  note t5 = t [THEN conjunct2, THEN conjunct2, THEN conjunct2, THEN conjunct2, THEN conjunct2,
               THEN mp, OF castsOk_idle]
  have v: "err exModel = None" by (simp add: exModel_def)
  show ?thesis
    using castsOk_idle t [THEN conjunct1] t [THEN conjunct2, THEN conjunct1] t5 v by simp
qed

lemma initialDisks_Nil:
  "\<forall>p \<in> set ps. isl (snd p) \<Longrightarrow> initialDisks lib ps = []"
  by (induction lib ps rule: initialDisks.induct) auto

text \<open>
  C8 (initial state). The state that \<open>initialModel\<close> builds has CPU value 0,
  memory values 0 and no error; its disk list is empty when the partition
  query fails or every usage query fails.
\<close>

theorem initialModel_zero:
  "cpuUsage (initialModel lib s) = Finite 0
   \<and> memUsed (initialModel lib s) = Finite 0
   \<and> memTotal (initialModel lib s) = Finite 0
   \<and> err (initialModel lib s) = None
   \<and> ((case partitions s of Inl e \<Rightarrow> True | Inr ps \<Rightarrow> \<forall>p \<in> set ps. isl (snd p))
        \<longrightarrow> disks (initialModel lib s) = [])"
  by (auto simp: initialModel_def initialDisks_Nil split: sum.splits)

theorem initialModel_zero_witness:
  "partitions noDiskSys = Inr [(''/'', Inl (Err ''permission denied''))]
   \<and> isl (snd (''/'', Inl (Err ''permission denied'') :: error + UsageStat))
   \<and> cpuUsage (initialModel idleProgress noDiskSys) = Finite 0
   \<and> memUsed (initialModel idleProgress noDiskSys) = Finite 0
   \<and> memTotal (initialModel idleProgress noDiskSys) = Finite 0
   \<and> err (initialModel idleProgress noDiskSys) = None
   \<and> disks (initialModel idleProgress noDiskSys) = []"
proof -
  have h: "case partitions noDiskSys of Inl e \<Rightarrow> True | Inr ps \<Rightarrow> \<forall>p \<in> set ps. isl (snd p)"
    by (simp add: noDiskSys_def)
  note t = initialModel_zero [of idleProgress noDiskSys]
  note t5 = t [THEN conjunct2, THEN conjunct2, THEN conjunct2, THEN conjunct2, THEN mp, OF h]
  have p: "partitions noDiskSys = Inr [(''/'', Inl (Err ''permission denied''))]"
    by (simp add: noDiskSys_def)
  show ?thesis
    using p t [THEN conjunct1] t [THEN conjunct2, THEN conjunct1]
      t [THEN conjunct2, THEN conjunct2, THEN conjunct1]
      t [THEN conjunct2, THEN conjunct2, THEN conjunct2, THEN conjunct1] t5
    by simp
qed

lemma switch_ui:
  assumes "isUIMsg e"
  shows "switch lib s m e = Inl (m, Quit) \<or>
         switch lib s m e = Inr ((case e of WindowSizeMsg w h \<Rightarrow> m\<lparr>width := w, height := h\<rparr> | _ \<Rightarrow> m), [])"
  using assms by (cases e) (auto simp: isUIMsg_def)

text \<open>
  C9 (other events). On a message that is neither a tick nor a CPU sample,
  \<open>Update\<close> keeps the CPU value, the memory values, the host text and every
  disk entry; a resize sets width and height to those of the message and any
  other message keeps them. The type assertions succeeding, the error field is
  kept too. When the widgets return themselves on the message, the whole state
  is the old one, but for the width and height on a resize.
\<close>

theorem ui_events_keep_metrics:
  assumes "isUIMsg e"
  shows "cpuUsage (fst (Update lib s m e)) = cpuUsage m
    \<and> memUsed (fst (Update lib s m e)) = memUsed m
    \<and> memTotal (fst (Update lib s m e)) = memTotal m
    \<and> sysInfo (fst (Update lib s m e)) = sysInfo m
    \<and> map diskData (disks (fst (Update lib s m e))) = map diskData (disks m)
    \<and> (case e of
          WindowSizeMsg w h \<Rightarrow>
            width (fst (Update lib s m e)) = w \<and> height (fst (Update lib s m e)) = h
        | _ \<Rightarrow>
            width (fst (Update lib s m e)) = width m \<and> height (fst (Update lib s m e)) = height m)
    \<and> (castsOk lib \<longrightarrow> err (fst (Update lib s m e)) = err m)
    \<and> ((\<forall>p. pl_Update lib p e = ProgressModel p) \<longrightarrow>
          fst (Update lib s m e) =
            (case e of WindowSizeMsg w h \<Rightarrow> m\<lparr>width := w, height := h\<rparr> | _ \<Rightarrow> m))"
proof -
  let ?m1 = "case e of WindowSizeMsg w h \<Rightarrow> m\<lparr>width := w, height := h\<rparr> | _ \<Rightarrow> m"
  have m1: "cpuUsage ?m1 = cpuUsage m" "memUsed ?m1 = memUsed m" "memTotal ?m1 = memTotal m"
    "sysInfo ?m1 = sysInfo m" "disks ?m1 = disks m" "err ?m1 = err m"
    "cpuProgress ?m1 = cpuProgress m" "memProgress ?m1 = memProgress m"
    by (simp_all split: msg.splits)
  have wh: "case e of WindowSizeMsg w h \<Rightarrow> width ?m1 = w \<and> height ?m1 = h
            | _ \<Rightarrow> width ?m1 = width m \<and> height ?m1 = height m"
    by (simp split: msg.splits)
  from switch_ui [OF assms, of lib s m] show ?thesis
  proof
    assume q: "switch lib s m e = Inl (m, Quit)"
    then have u: "Update lib s m e = (m, Quit)" by (rule Update_Inl)
    from q assms have "\<exists>k. e = KeyMsg k"
      by (cases e) (auto simp: isUIMsg_def split: if_splits)
    then show ?thesis using u by auto
  next
    assume sw: "switch lib s m e = Inr (?m1, [])"
    note fr = Update_Inr_frame [OF sw]
    have a: "case e of
          WindowSizeMsg w h \<Rightarrow>
            width (fst (Update lib s m e)) = w \<and> height (fst (Update lib s m e)) = h
        | _ \<Rightarrow>
            width (fst (Update lib s m e)) = width m \<and> height (fst (Update lib s m e)) = height m"
      using wh fr(5,6) by (simp split: msg.splits)
    have b: "err (fst (Update lib s m e)) = err m" if c: "castsOk lib"
      using Update_Inr_ok(1) [OF c sw] m1(6) by simp
    have c: "fst (Update lib s m e) = ?m1" if i: "\<forall>p. pl_Update lib p e = ProgressModel p"
      using sw i updateDiskProgress_id [OF i, of "disks ?m1"]
      by (simp add: Update_def Let_def)
    show ?thesis using fr(1,2,3,4,7) m1 a b c by simp
  qed
qed

theorem ui_events_keep_metrics_witness:
  "isUIMsg (WindowSizeMsg 120 40) \<and> castsOk idleProgress
   \<and> (\<forall>p. pl_Update idleProgress p (WindowSizeMsg 120 40) = ProgressModel p)
   \<and> fst (Update idleProgress growSys exModel (WindowSizeMsg 120 40))
       = exModel\<lparr>width := 120, height := 40\<rparr>
   \<and> err (fst (Update idleProgress growSys exModel (WindowSizeMsg 120 40))) = None"
proof -
  have h1: "isUIMsg (WindowSizeMsg 120 40)" by (simp add: isUIMsg_def)
  have h2: "\<forall>p. pl_Update idleProgress p (WindowSizeMsg 120 40) = ProgressModel p"
    by (simp add: idleProgress_def)
  note t = ui_events_keep_metrics [OF h1, of idleProgress growSys exModel]
  note t7 = t [THEN conjunct2, THEN conjunct2, THEN conjunct2, THEN conjunct2, THEN conjunct2,
               THEN conjunct2, THEN conjunct1, THEN mp, OF castsOk_idle]
  note t8 = t [THEN conjunct2, THEN conjunct2, THEN conjunct2, THEN conjunct2, THEN conjunct2,
               THEN conjunct2, THEN conjunct2, THEN mp, OF h2]
  have v: "err exModel = None" by (simp add: exModel_def)
  show ?thesis using h1 h2 castsOk_idle t7 t8 v by simp
qed

lemma percents_append: "percents (cs @ ds) = percents cs @ percents ds"
  by (induction cs rule: percents.induct) auto

lemma percents_ProgressUpdate:
  "\<forall>c \<in> set cs. \<exists>p. c = ProgressUpdate p e \<Longrightarrow> percents cs = []"
  by (induction cs rule: percents.induct) auto

lemma updateDisk_cmd:
  "updateDisk lib mp u t ds = Some (ds', c) \<Longrightarrow> percents [c] = [f64_div u t]"
  by (induction ds arbitrary: ds') (auto simp: Let_def split: option.splits if_splits)

lemma reconcilePartition_percents:
  "percents (snd (reconcilePartition lib (ds, cmds) p)) = percents cmds @ partPercents p"
proof (cases p)
  case (Pair mp r)
  show ?thesis
  proof (cases r)
    case (Inl e)
    with Pair show ?thesis by simp
  next
    case (Inr u)
    show ?thesis
    proof (cases "updateDisk lib mp (bytesToGB (usage_Used u)) (bytesToGB (usage_Total u)) ds")
      case None
      with Pair Inr show ?thesis by (simp add: Let_def percents_append)
    next
      case (Some a)
      obtain ds' c where a: "a = (ds', c)" by (cases a)
      from Some a have "percents [c] = [f64_div (bytesToGB (usage_Used u)) (bytesToGB (usage_Total u))]"
        by (simp add: updateDisk_cmd)
      with Some a Pair Inr show ?thesis by (simp add: Let_def percents_append)
    qed
  qed
qed

lemma reconcilePartitions_percents:
  "percents (snd (reconcilePartitions lib ps (ds, cmds))) = percents cmds @ concat (map partPercents ps)"
proof (induction ps arbitrary: ds cmds)
  case Nil
  show ?case by (simp add: reconcilePartitions_def)
next
  case (Cons p ps)
  obtain ds1 cmds1 where st: "reconcilePartition lib (ds, cmds) p = (ds1, cmds1)"
    by (cases "reconcilePartition lib (ds, cmds) p")
  have "percents cmds1 = percents cmds @ partPercents p"
    using reconcilePartition_percents [of lib ds cmds p] st by simp
  with Cons.IH [of ds1 cmds1] st show ?case
    by (simp add: reconcilePartitions_def)
qed

lemma tick_percents:
  assumes "virtualMemory s = Inr ms" "hostInfo s = Inr h" "partitions s = Inr ps"
  shows "\<exists>m1 cmds. tick lib s m = Inr (m1, cmds)
           \<and> percents cmds = concat (map partPercents ps)
                @ [f64_div (bytesToGB (mem_Used ms)) (bytesToGB (mem_Total ms))]"
proof -
  obtain ds cmds where rp: "reconcilePartitions lib ps (disks m, []) = (ds, cmds)"
    by (cases "reconcilePartitions lib ps (disks m, [])")
  have "percents cmds = concat (map partPercents ps)"
    using reconcilePartitions_percents [of lib ps "disks m" "[]"] rp by simp
  with rp assms show ?thesis
    by (simp add: tick_def getMemUsage_def getSysInfo_def Let_def percents_append)
qed

lemma partPercents_finite:
  "totalNonzero p \<Longrightarrow> list_all isFinite (partPercents p)"
proof (cases p)
  case (Pair mp r)
  assume t: "totalNonzero p"
  show ?thesis
  proof (cases r)
    case (Inl e)
    with Pair show ?thesis by simp
  next
    case (Inr u)
    with Pair t have "usage_Total u \<noteq> 0" by simp
    from percent_finite [OF this, of "usage_Used u"] Pair Inr show ?thesis by auto
  qed
qed

lemma concat_partPercents_finite:
  "list_all totalNonzero ps \<Longrightarrow> list_all isFinite (concat (map partPercents ps))"
  by (induction ps) (auto simp: partPercents_finite)

lemma Update_tick_mem:
  assumes "virtualMemory s = Inr ms"
  shows "memUsed (fst (Update lib s m TickMsg)) = bytesToGB (mem_Used ms)"
    and "memTotal (fst (Update lib s m TickMsg)) = bytesToGB (mem_Total ms)"
proof -
  have "memUsed (fst (Update lib s m TickMsg)) = bytesToGB (mem_Used ms)
      \<and> memTotal (fst (Update lib s m TickMsg)) = bytesToGB (mem_Total ms)"
  proof (cases "tick lib s m")
    case (Inl r)
    then have "Update lib s m TickMsg = r" by (simp add: Update_Inl)
    moreover from Inl assms have "memUsed (fst r) = bytesToGB (mem_Used ms)
        \<and> memTotal (fst r) = bytesToGB (mem_Total ms)"
      by (auto simp: tick_def getMemUsage_def getSysInfo_def Let_def
               split: sum.splits prod.splits if_splits)
    ultimately show ?thesis by simp
  next
    case (Inr b)
    obtain m1 cmds where b: "b = (m1, cmds)" by (cases b)
    from Inr b assms have "memUsed m1 = bytesToGB (mem_Used ms) \<and> memTotal m1 = bytesToGB (mem_Total ms)"
      by (auto simp: tick_def getMemUsage_def getSysInfo_def Let_def
               split: sum.splits prod.splits if_splits)
    moreover have "switch lib s m TickMsg = Inr (m1, cmds)" using Inr b by simp
    note Update_Inr_frame(2,3) [OF this]
    ultimately show ?thesis by simp
  qed
  then show "memUsed (fst (Update lib s m TickMsg)) = bytesToGB (mem_Used ms)"
    and "memTotal (fst (Update lib s m TickMsg)) = bytesToGB (mem_Total ms)" by simp_all
qed

text \<open>
  C7 (unit conversion). A byte count enters the state as \<open>bytesToGB\<close> of
  it, the \<open>float64\<close> quotient by \<open>1024 * 1024 * 1024\<close>. The value is the
  byte count divided by 2^30, exactly for every count up to 2^53 and within
  the relative error 2^-53 of the conversion to \<open>float64\<close> beyond; 2147483648
  and 4294967296 bytes give 2 and 4. A tick stores these values for the memory
  and for the disk of a partition, and \<open>initialModel\<close> for a disk.
\<close>

theorem bytes_to_gigabytes:
  "(\<exists>g. bytesToGB b = Finite g
        \<and> \<bar>g - real (unat b) / 2 ^ 30\<bar> \<le> real (unat b) / 2 ^ 30 / 2 ^ 53)
   \<and> (unat b \<le> 2 ^ 53 \<longrightarrow> bytesToGB b = Finite (real (unat b) / 2 ^ 30))
   \<and> bytesToGB 2147483648 = Finite 2 \<and> bytesToGB 4294967296 = Finite 4
   \<and> (virtualMemory s = Inr ms \<longrightarrow>
        memUsed (fst (Update lib s m TickMsg)) = bytesToGB (mem_Used ms) \<and>
        memTotal (fst (Update lib s m TickMsg)) = bytesToGB (mem_Total ms))
   \<and> (virtualMemory s = Inr ms \<and> hostInfo s = Inr h \<and> partitions s = Inr [(mp, Inr u)] \<longrightarrow>
        map_of (map diskData (disks (fst (Update lib s m TickMsg)))) mp
          = Some (bytesToGB (usage_Used u), bytesToGB (usage_Total u)))
   \<and> (partitions s = Inr [(mp, Inr u)] \<longrightarrow>
        map diskData (disks (initialModel lib s))
          = [(mp, bytesToGB (usage_Used u), bytesToGB (usage_Total u))])"
proof -
  have 1: "\<exists>g. bytesToGB b = Finite g
        \<and> \<bar>g - real (unat b) / 2 ^ 30\<bar> \<le> real (unat b) / 2 ^ 30 / 2 ^ 53"
    using bytesToGB_bounds [of b] by blast
  have 2: "unat b \<le> 2 ^ 53 \<longrightarrow> bytesToGB b = Finite (real (unat b) / 2 ^ 30)"
    using bytesToGB_exact [of b] by blast
  have "unat (2147483648 :: 64 word) \<le> 2 ^ 53" by simp
  from bytesToGB_exact [OF this] have 3: "bytesToGB 2147483648 = Finite 2" by simp
  have "unat (4294967296 :: 64 word) \<le> 2 ^ 53" by simp
  from bytesToGB_exact [OF this] have 4: "bytesToGB 4294967296 = Finite 4" by simp
  have 5: "virtualMemory s = Inr ms \<longrightarrow>
        memUsed (fst (Update lib s m TickMsg)) = bytesToGB (mem_Used ms) \<and>
        memTotal (fst (Update lib s m TickMsg)) = bytesToGB (mem_Total ms)"
    using Update_tick_mem [of s ms lib m] by blast
  have 6: "map_of (map diskData (disks (fst (Update lib s m TickMsg)))) mp
          = Some (bytesToGB (usage_Used u), bytesToGB (usage_Total u))"
    if "virtualMemory s = Inr ms \<and> hostInfo s = Inr h \<and> partitions s = Inr [(mp, Inr u)]"
    using that by (simp add: Update_tick_data tickData_def map_of_upsert)
  have 7: "map diskData (disks (initialModel lib s))
          = [(mp, bytesToGB (usage_Used u), bytesToGB (usage_Total u))]"
    if "partitions s = Inr [(mp, Inr u)]"
    using that by (simp add: initialModel_def diskData_def)
  from 1 2 3 4 5 6 7 show ?thesis by blast
qed

theorem bytes_to_gigabytes_witness:
  "unat (2147483648 :: 64 word) \<le> 2 ^ 53
   \<and> virtualMemory p4Sys = Inr (VirtualMemoryStat 2147483648 4294967296)
   \<and> hostInfo p4Sys = Inr ''Hostname: h''
   \<and> partitions p4Sys = Inr [(''/data'', Inr (UsageStat 2147483648 4294967296))]
   \<and> bytesToGB 2147483648 = Finite (real (unat (2147483648 :: 64 word)) / 2 ^ 30)
   \<and> memUsed (fst (Update idleProgress p4Sys exModel TickMsg)) = Finite 2
   \<and> memTotal (fst (Update idleProgress p4Sys exModel TickMsg)) = Finite 4
   \<and> map_of (map diskData (disks (fst (Update idleProgress p4Sys exModel TickMsg)))) ''/data''
        = Some (Finite 2, Finite 4)
   \<and> map diskData (disks (initialModel idleProgress p4Sys)) = [(''/data'', Finite 2, Finite 4)]"
proof -
  have h0: "unat (2147483648 :: 64 word) \<le> 2 ^ 53" by simp
  have h1: "virtualMemory p4Sys = Inr (VirtualMemoryStat 2147483648 4294967296)"
    by (simp add: p4Sys_def)
  have h2: "hostInfo p4Sys = Inr ''Hostname: h''" by (simp add: p4Sys_def)
  have h3: "partitions p4Sys = Inr [(''/data'', Inr (UsageStat 2147483648 4294967296))]"
    by (simp add: p4Sys_def)
  note t = bytes_to_gigabytes [of "2147483648" p4Sys "VirtualMemoryStat 2147483648 4294967296"
      idleProgress exModel "''Hostname: h''" "''/data''" "UsageStat 2147483648 4294967296"]
  note t2 = t [THEN conjunct2, THEN conjunct1, THEN mp, OF h0]
  note t3 = t [THEN conjunct2, THEN conjunct2, THEN conjunct1]
  note t4 = t [THEN conjunct2, THEN conjunct2, THEN conjunct2, THEN conjunct1]
  note t5 = t [THEN conjunct2, THEN conjunct2, THEN conjunct2, THEN conjunct2, THEN conjunct1,
               THEN mp, OF h1]
  note t6 = t [THEN conjunct2, THEN conjunct2, THEN conjunct2, THEN conjunct2, THEN conjunct2,
               THEN conjunct1, THEN mp, OF conjI [OF h1 conjI [OF h2 h3]]]
  note t7 = t [THEN conjunct2, THEN conjunct2, THEN conjunct2, THEN conjunct2, THEN conjunct2,
               THEN conjunct2, THEN mp, OF h3]
  show ?thesis
    using h0 h1 h2 h3 t2 t3 t4 t5 t6 t7 by simp
qed

text \<open>
  C10 (unguarded percentages). In a tick that runs to its end, the percentages
  handed to the widgets are the quotient used/total of every partition whose
  usage query succeeded, in the order of the list, and then that of the memory:
  no total is tested against zero first. When the memory total and the total
  of each such partition are not zero, every percentage is a finite number.
  A total of zero gives the quotient NaN for zero bytes used and plus infinity
  otherwise.
\<close>

theorem percent_divisions_unguarded:
  assumes "castsOk lib" and "virtualMemory s = Inr ms" and "hostInfo s = Inr h"
    and "partitions s = Inr ps"
  shows "(\<exists>cmds. snd (Update lib s m TickMsg) = Batch cmds
            \<and> percents cmds = concat (map partPercents ps)
                 @ [f64_div (bytesToGB (mem_Used ms)) (bytesToGB (mem_Total ms))]
            \<and> (mem_Total ms \<noteq> 0 \<and> list_all totalNonzero ps \<longrightarrow> list_all isFinite (percents cmds)))
     \<and> f64_div (bytesToGB used) (bytesToGB 0) = (if used = 0 then NaN else PosInf)"
proof -
  obtain m1 cmds where t: "tick lib s m = Inr (m1, cmds)"
      "percents cmds = concat (map partPercents ps)
          @ [f64_div (bytesToGB (mem_Used ms)) (bytesToGB (mem_Total ms))]"
    using tick_percents [OF assms(2-4), of lib m] by blast
  have sw: "switch lib s m TickMsg = Inr (m1, cmds)" using t(1) by simp
  obtain cs where cs: "snd (Update lib s m TickMsg) = Batch (cmds @ cs)"
      "\<forall>c \<in> set cs. \<exists>p. c = ProgressUpdate p TickMsg"
    using Update_Inr_ok(2) [OF assms(1) sw] by blast
  have p: "percents (cmds @ cs) = concat (map partPercents ps)
          @ [f64_div (bytesToGB (mem_Used ms)) (bytesToGB (mem_Total ms))]"
    using t(2) percents_ProgressUpdate [OF cs(2)] by (simp add: percents_append)
  have f: "list_all isFinite (percents (cmds @ cs))"
    if "mem_Total ms \<noteq> 0 \<and> list_all totalNonzero ps"
  proof -
    from that have a: "list_all isFinite (concat (map partPercents ps))"
      by (simp add: concat_partPercents_finite)
    from that percent_finite [of "mem_Total ms" "mem_Used ms"]
    have b: "isFinite (f64_div (bytesToGB (mem_Used ms)) (bytesToGB (mem_Total ms)))" by auto
    from a b show ?thesis unfolding p by simp
  qed
  have z: "f64_div (bytesToGB used) (bytesToGB 0) = (if used = 0 then NaN else PosInf)"
    by (rule percent_zero_total)
  from cs(1) p f z show ?thesis by blast
qed

text \<open>All four totals are nonzero here, and the four percentages are finite.\<close>

theorem percent_divisions_unguarded_witness:
  "castsOk idleProgress \<and> virtualMemory growSys = Inr exMem
   \<and> hostInfo growSys = Inr ''Hostname: h''
   \<and> partitions growSys = Inr [(''/'', Inr usageA), (''/home'', Inr usageB), (''/mnt'', Inr usageC)]
   \<and> mem_Total exMem \<noteq> 0
   \<and> list_all totalNonzero [(''/'', Inr usageA), (''/home'', Inr usageB), (''/mnt'', Inr usageC)]
   \<and> (\<exists>cmds. snd (Update idleProgress growSys exModel TickMsg) = Batch cmds
          \<and> length (percents cmds) = 4 \<and> list_all isFinite (percents cmds))"
proof -
  have h2: "virtualMemory growSys = Inr exMem" by (simp add: growSys_def)
  have h3: "hostInfo growSys = Inr ''Hostname: h''" by (simp add: growSys_def)
  have h4: "partitions growSys = Inr [(''/'', Inr usageA), (''/home'', Inr usageB), (''/mnt'', Inr usageC)]"
    by (simp add: growSys_def)
  have h5: "mem_Total exMem \<noteq> 0" by (simp add: exMem_def)
  have h6: "list_all totalNonzero [(''/'', Inr usageA), (''/home'', Inr usageB), (''/mnt'', Inr usageC)]"
    by (simp add: usageA_def usageB_def usageC_def)
  note t = percent_divisions_unguarded [OF castsOk_idle h2 h3 h4, of exModel, THEN conjunct1]
  from t obtain cmds where c: "snd (Update idleProgress growSys exModel TickMsg) = Batch cmds"
      "percents cmds = concat (map partPercents [(''/'', Inr usageA), (''/home'', Inr usageB), (''/mnt'', Inr usageC)])
                 @ [f64_div (bytesToGB (mem_Used exMem)) (bytesToGB (mem_Total exMem))]"
      "mem_Total exMem \<noteq> 0 \<and> list_all totalNonzero [(''/'', Inr usageA), (''/home'', Inr usageB), (''/mnt'', Inr usageC)]
         \<longrightarrow> list_all isFinite (percents cmds)"
    by blast
  from c(3) h5 h6 have f: "list_all isFinite (percents cmds)" by blast
  from c(2) have l: "length (percents cmds) = 4" by simp
  from c(1) f l have "\<exists>cmds. snd (Update idleProgress growSys exModel TickMsg) = Batch cmds
          \<and> length (percents cmds) = 4 \<and> list_all isFinite (percents cmds)" by blast
  with castsOk_idle h2 h3 h4 h5 h6 show ?thesis by blast
qed

text \<open>
  With a memory total of zero and two partitions of total zero, the tick still
  hands three percentages to the widgets and ends with the batch of commands.
\<close>

lemma zero_totals_still_divided:
  "\<exists>cmds. snd (Update idleProgress zeroSys exModel TickMsg) = Batch cmds
      \<and> percents cmds = [NaN, PosInf, NaN]"
proof -
  have h2: "virtualMemory zeroSys = Inr (VirtualMemoryStat 0 0)" by (simp add: zeroSys_def)
  have h3: "hostInfo zeroSys = Inr ''Hostname: h''" by (simp add: zeroSys_def)
  have h4: "partitions zeroSys = Inr [(''/'', Inr (UsageStat 0 0)), (''/home'', Inr (UsageStat 5 0))]"
    by (simp add: zeroSys_def)
  obtain m1 cmds where t: "tick idleProgress zeroSys exModel = Inr (m1, cmds)"
      "percents cmds = concat (map partPercents [(''/'', Inr (UsageStat 0 0)), (''/home'', Inr (UsageStat 5 0))])
          @ [f64_div (bytesToGB (mem_Used (VirtualMemoryStat 0 0))) (bytesToGB (mem_Total (VirtualMemoryStat 0 0)))]"
    using tick_percents [OF h2 h3 h4, of idleProgress exModel] by blast
  have sw: "switch idleProgress zeroSys exModel TickMsg = Inr (m1, cmds)" using t(1) by simp
  obtain cs where cs: "snd (Update idleProgress zeroSys exModel TickMsg) = Batch (cmds @ cs)"
      "\<forall>c \<in> set cs. \<exists>p. c = ProgressUpdate p TickMsg"
    using Update_Inr_ok(2) [OF castsOk_idle sw] by blast
  have "percents (cmds @ cs) = [NaN, PosInf, NaN]"
    using t(2) percents_ProgressUpdate [OF cs(2)]
    by (simp add: percents_append percent_zero_total)
  with cs(1) show ?thesis by blast
qed

end
